theory Spec2Isabelle
  imports Complex_Main "HOL-Library.Signed_Division"
begin

section \<open>Data model of framefixer.cpp\<close>

text \<open>
  A \<open>cv::Mat\<close> is either empty or holds image data. Full-resolution frames carry data of
  type \<open>'f\<close>, comparison images (grayscale, downscaled) data of type \<open>'c\<close>.
\<close>

datatype 'a Mat = Empty | Img 'a

text \<open>
  \<open>struct Frame\<close>. The field \<open>comp\<close> is named \<open>compF\<close> here (\<open>comp\<close> is function
  composition in HOL). C++ \<open>int\<close> is modelled as an unbounded \<open>int\<close>: the counters only
  move by one per frame read or written and signed overflow is undefined in C++.
  A \<open>double\<close> is modelled by the real number it denotes; the program only compares
  doubles, it never does arithmetic on the scores.
\<close>

record ('f, 'c) Frame =
  data :: "'f Mat"
  compF :: "'c Mat"
  count :: int
  priority :: real
  index :: int

text \<open>\<open>class Threshold\<close>; the member \<open>value\<close> is named \<open>value'\<close>.\<close>

record Threshold =
  value' :: real
  strict :: real
  relaxed :: real

definition makeStrict :: "Threshold \<Rightarrow> Threshold" where
  "makeStrict t = t\<lparr>value' := strict t\<rparr>"

definition makeRelaxed :: "Threshold \<Rightarrow> Threshold" where
  "makeRelaxed t = t\<lparr>value' := relaxed t\<rparr>"

text \<open>
  The OpenCV calls the program makes are parameters of the model:
  \<open>gray_resize\<close> is \<open>cvtColor\<close> followed by \<open>resize\<close> in \<open>readFrame\<close>;
  \<open>absdiff_std a b\<close> is \<open>absdiff(a,b,diff); meanStdDev(diff,mean,std); std.at<double>(0)\<close>
  in \<open>matchFrames\<close>.
\<close>

record ('f, 'c) opencv =
  gray_resize :: "'f \<Rightarrow> 'c"
  absdiff_std :: "'c Mat \<Rightarrow> 'c Mat \<Rightarrow> real"

text \<open>The options of \<open>main\<close> that the scheduling core reads.\<close>

record config =
  buffer_size :: int
  adjustment_bound :: int
  duplicate_count :: int

text \<open>
  The globals of the program and the locals of \<open>main\<close> that live across loop iterations.
  \<open>CAP\<close> is the list of frames the capture has not delivered yet, \<open>VIDEO\<close> the list of
  frames written so far, in order.
\<close>

record ('f, 'c) state =
  CAP :: "'f list"
  VIDEO :: "'f Mat list"
  THRESH :: Threshold
  WRITE_INDEX :: int
  READ_INDEX :: int
  FINISHED :: bool
  DRIFT :: int
  buffer :: "('f, 'c) Frame list"
  tempframe :: "'f Mat"
  compframe :: "'c Mat"
  stdev :: real
  full :: bool
  drift_update :: int

datatype error = IteratorOutOfRange

section \<open>Helpers of the program\<close>

text \<open>\<open>matchFrames\<close>: writes the score to \<open>stdev\<close> and compares it with \<open>THRESH.value\<close>.\<close>

definition matchFrames ::
  "('f, 'c) opencv \<Rightarrow> 'c Mat \<Rightarrow> 'c Mat \<Rightarrow> ('f, 'c) state \<Rightarrow> bool \<times> ('f, 'c) state" where
  "matchFrames cv a b s =
     (let s' = s\<lparr>stdev := absdiff_std cv a b\<rparr>
      in (if stdev s' < value' (THRESH s') then True else False, s'))"

text \<open>
  \<open>writeFrames\<close>: the loop \<open>while (count > 0) { vidout.write(frame); WRITE_INDEX++; count--; }\<close>.
  The count is passed by reference and left at 0; both callers delete the record right after.
\<close>

function writeFrames :: "'f Mat \<Rightarrow> int \<Rightarrow> ('f, 'c) state \<Rightarrow> ('f, 'c) state" where
  "writeFrames frame cnt s =
     (if cnt > 0
      then writeFrames frame (cnt - 1)
             (s\<lparr>VIDEO := VIDEO s @ [frame], WRITE_INDEX := WRITE_INDEX s + 1\<rparr>)
      else s)"
  by pat_completeness auto
termination
  by (relation "measure (\<lambda>(frame, cnt, s). nat cnt)") auto

declare writeFrames.simps [simp del]

text \<open>
  \<open>readFrame\<close>: \<open>vidin >> frame; READ_INDEX++\<close>. At the end of the stream the capture
  delivers an empty \<open>Mat\<close> into \<open>tempframe\<close> and \<open>compframe\<close> keeps its old content.
\<close>

definition readFrame :: "('f, 'c) opencv \<Rightarrow> ('f, 'c) state \<Rightarrow> bool \<times> ('f, 'c) state" where
  "readFrame cv s =
     (case CAP s of
        [] \<Rightarrow> (False, s\<lparr>tempframe := Empty, READ_INDEX := READ_INDEX s + 1\<rparr>)
      | x # xs \<Rightarrow>
          (True, s\<lparr>CAP := xs, tempframe := Img x, READ_INDEX := READ_INDEX s + 1,
                    compframe := Img (gray_resize cv x)\<rparr>))"

text \<open>
  The record built at the three places that run
  \<open>new Frame(); copyTo data; copyTo comp; count = 1; priority = stdev; index = READ_INDEX\<close>.
\<close>

definition newFrame :: "('f, 'c) state \<Rightarrow> ('f, 'c) Frame" where
  "newFrame s =
     \<lparr>data = tempframe s, compF = compframe s, count = 1, priority = stdev s,
      index = READ_INDEX s\<rparr>"

text \<open>
  \<open>buffer.size() < buffer_size\<close> compares a \<open>size_t\<close> with an \<open>int\<close>: the \<open>int\<close> is
  converted to the unsigned type (64 bits), so a negative bound would compare as huge.
\<close>

definition size_less :: "nat \<Rightarrow> int \<Rightarrow> bool" where
  "size_less n b = (int n < (if b < 0 then b + 2 ^ 64 else b))"

text \<open>\<open>buffer.back()->count++\<close>.\<close>

definition inc_back :: "('f, 'c) Frame list \<Rightarrow> ('f, 'c) Frame list" where
  "inc_back buf = butlast buf @ [(last buf)\<lparr>count := count (last buf) + 1\<rparr>]"

section \<open>Filling\<close>

text \<open>
  One iteration of \<open>while(!full)\<close> (lines 330 to 353). \<open>buffer.back()\<close> is \<open>last\<close> and
  \<open>buffer.front()\<close> is \<open>hd\<close> of the list; the program never reads them on an empty
  list, since the buffer of a run is never empty (part of the window invariant below).
\<close>

definition fill_body :: "('f, 'c) opencv \<Rightarrow> config \<Rightarrow> ('f, 'c) state \<Rightarrow> ('f, 'c) state" where
  "fill_body cv cfg s =
     (let (ok, s1) = readFrame cv s in
      if ok then
        (let (m, s2) = matchFrames cv (compF (last (buffer s1))) (compframe s1) s1 in
         if m then
           (let s3 = s2\<lparr>buffer := inc_back (buffer s2)\<rparr> in
            if count (last (buffer s3)) = duplicate_count cfg
            then s3\<lparr>THRESH := makeRelaxed (THRESH s3)\<rparr>
            else s3)
         else
           (let s3 = s2\<lparr>THRESH := makeStrict (THRESH s2)\<rparr> in
            if size_less (length (buffer s3)) (buffer_size cfg)
            then s3\<lparr>buffer := buffer s3 @ [newFrame s3]\<rparr>
            else s3\<lparr>full := True\<rparr>))
      else s1\<lparr>full := True, FINISHED := True\<rparr>)"

lemma fill_body_progress:
  "(if full (fill_body cv cfg s) then 0 else 1) + length (CAP (fill_body cv cfg s))
     < 1 + length (CAP s)"
  by (auto simp: fill_body_def readFrame_def matchFrames_def Let_def split: list.splits)

function fill :: "('f, 'c) opencv \<Rightarrow> config \<Rightarrow> ('f, 'c) state \<Rightarrow> ('f, 'c) state" where
  "fill cv cfg s = (if full s then s else fill cv cfg (fill_body cv cfg s))"
  by pat_completeness auto
termination
proof (relation "measure (\<lambda>(cv, cfg, s). (if full s then 0 else 1) + length (CAP s))")
  show "wf (measure (\<lambda>(cv, cfg, s). (if full s then 0 else 1) + length (CAP s)))"
    by simp
next
  fix cv :: "('f, 'c) opencv" and cfg :: config and s :: "('f, 'c) state"
  assume "\<not> full s"
  then show "((cv, cfg, fill_body cv cfg s), (cv, cfg, s))
      \<in> measure (\<lambda>(cv, cfg, s). (if full s then 0 else 1) + length (CAP s))"
    using fill_body_progress [of cv cfg s] by simp
qed

declare fill.simps [simp del]

section \<open>Slot reallocation\<close>

text \<open>
  The reverse scans \<open>for (it = buffer.rbegin(); it != buffer.rend(); it++) if (P(*it)) { ...; break; }\<close>:
  \<open>rscan P xs k\<close> looks at the positions \<open>k - 1\<close> down to \<open>0\<close> and returns the first hit.
\<close>

fun rscan :: "('a \<Rightarrow> bool) \<Rightarrow> 'a list \<Rightarrow> nat \<Rightarrow> nat option" where
  "rscan P xs 0 = None"
| "rscan P xs (Suc k) = (if P (xs ! k) then Some k else rscan P xs k)"

text \<open>
  \<open>(*it)->count--; tofix->count++;\<close> on the records at positions \<open>j\<close> (donor) and
  \<open>i\<close> (target), in this order, so that both updates hit the same record when \<open>j = i\<close>.
\<close>

definition transfer :: "nat \<Rightarrow> nat \<Rightarrow> ('f, 'c) Frame list \<Rightarrow> ('f, 'c) Frame list" where
  "transfer j i buf =
     (let b1 = buf[j := (buf ! j)\<lparr>count := count (buf ! j) - 1\<rparr>]
      in b1[i := (b1 ! i)\<lparr>count := count (b1 ! i) + 1\<rparr>])"

text \<open>
  The body of \<open>while (fixing && tofix->count < duplicate_count)\<close> (lines 369 to 389):
  \<open>Some\<close> of the new buffer when \<open>fixing\<close> is set again, \<open>None\<close> when it stays false.
\<close>

definition realloc_pass ::
  "int \<Rightarrow> nat \<Rightarrow> ('f, 'c) Frame list \<Rightarrow> ('f, 'c) Frame list option" where
  "realloc_pass dup i buf =
     (case rscan (\<lambda>f. count f > dup) buf (length buf) of
        Some j \<Rightarrow> Some (transfer j i buf)
      | None \<Rightarrow>
          (case rscan (\<lambda>f. priority f < priority (buf ! i) \<and> count f > 1) buf (length buf) of
             Some j \<Rightarrow> Some (transfer j i buf)
           | None \<Rightarrow> None))"

lemma rscan_Some:
  "rscan P xs k = Some j \<Longrightarrow> j < k \<and> P (xs ! j) \<and> (\<forall>m. j < m \<and> m < k \<longrightarrow> \<not> P (xs ! m))"
proof (induction k)
  case 0
  then show ?case by simp
next
  case (Suc k)
  show ?case
  proof (cases "P (xs ! k)")
    case True
    with Suc.prems have "j = k" by simp
    with True show ?thesis by auto
  next
    case False
    with Suc.prems have "rscan P xs k = Some j" by simp
    from Suc.IH [OF this] False show ?thesis
      by (auto simp: less_Suc_eq)
  qed
qed

lemma rscan_None: "rscan P xs k = None \<longleftrightarrow> (\<forall>m<k. \<not> P (xs ! m))"
  by (induction k) (auto simp: less_Suc_eq)

lemma length_transfer: "length (transfer j i buf) = length buf"
  by (simp add: transfer_def Let_def)

lemma count_transfer_target:
  "i < length buf \<Longrightarrow> j \<noteq> i \<Longrightarrow> count (transfer j i buf ! i) = count (buf ! i) + 1"
  by (simp add: transfer_def Let_def)

lemma realloc_pass_donor:
  assumes "realloc_pass dup i buf = Some buf'" and "count (buf ! i) < dup"
  shows "\<exists>j<length buf. j \<noteq> i \<and> buf' = transfer j i buf"
proof (cases "rscan (\<lambda>f. count f > dup) buf (length buf)")
  case (Some j)
  from rscan_Some [OF Some] assms(2) have "j < length buf" "j \<noteq> i" by auto
  moreover from Some assms(1) have "buf' = transfer j i buf"
    by (simp add: realloc_pass_def)
  ultimately show ?thesis by blast
next
  case None
  with assms(1) obtain j where
    j: "rscan (\<lambda>f. priority f < priority (buf ! i) \<and> count f > 1) buf (length buf) = Some j"
    and b: "buf' = transfer j i buf"
    by (auto simp: realloc_pass_def split: option.splits)
  from rscan_Some [OF j] have "j < length buf" "j \<noteq> i" by auto
  with b show ?thesis by blast
qed

text \<open>
  The loop around the pass. \<open>n\<close> is the distance \<open>buffer_size/2\<close> that
  \<open>advance(iter, buffer_size/2)\<close> moves from \<open>buffer.begin()\<close>; \<open>Frame* tofix = *iter\<close>
  reads outside the list when \<open>n\<close> is not an index of the buffer, which is an error here.
\<close>

function reallocate :: "int \<Rightarrow> int \<Rightarrow> ('f, 'c) Frame list \<Rightarrow> error + ('f, 'c) Frame list" where
  "reallocate dup n buf =
     (if n < 0 \<or> int (length buf) \<le> n then Inl IteratorOutOfRange
      else if count (buf ! nat n) < dup
      then (case realloc_pass dup (nat n) buf of
              Some buf' \<Rightarrow> reallocate dup n buf'
            | None \<Rightarrow> Inr buf)
      else Inr buf)"
  by pat_completeness auto
termination
proof (relation "measure (\<lambda>(dup, n, buf). nat (dup - count (buf ! nat n)))")
  show "wf (measure (\<lambda>(dup, n, buf). nat (dup - count (buf ! nat n))))"
    by simp
next
  fix dup n :: int and buf buf' :: "('f, 'c) Frame list"
  assume range: "\<not> (n < 0 \<or> int (length buf) \<le> n)"
    and low: "count (buf ! nat n) < dup"
    and pass: "realloc_pass dup (nat n) buf = Some buf'"
  from realloc_pass_donor [OF pass low] obtain j where
    "j \<noteq> nat n" "buf' = transfer j (nat n) buf" by blast
  moreover from range have "nat n < length buf" by linarith
  ultimately have "count (buf' ! nat n) = count (buf ! nat n) + 1"
    by (simp add: count_transfer_target)
  with low show "((dup, n, buf'), (dup, n, buf))
      \<in> measure (\<lambda>(dup, n, buf). nat (dup - count (buf ! nat n)))"
    by simp
qed

declare reallocate.simps [simp del]

section \<open>Drift correction\<close>

text \<open>
  Lines 355 to 359: the drift is measured again once the countdown has run out.
\<close>

definition update_drift :: "config \<Rightarrow> ('f, 'c) state \<Rightarrow> ('f, 'c) state" where
  "update_drift cfg s =
     (let s1 = s\<lparr>drift_update := drift_update s - 1\<rparr> in
      if drift_update s1 \<le> 0
      then s1\<lparr>DRIFT := WRITE_INDEX s1 - index (hd (buffer s1)),
               drift_update := buffer_size cfg\<rparr>
      else s1)"

text \<open>
  \<open>while ((*it)->count > duplicate_count) { (*it)->count--; DRIFT--; if (DRIFT < adjustment_bound) break; }\<close>
  on the count \<open>c\<close> of one record and the drift \<open>d\<close>.
\<close>

function cut_frame :: "int \<Rightarrow> int \<Rightarrow> int \<Rightarrow> int \<Rightarrow> int \<times> int" where
  "cut_frame bound dup c d =
     (if c > dup
      then (if d - 1 < bound then (c - 1, d - 1) else cut_frame bound dup (c - 1) (d - 1))
      else (c, d))"
  by pat_completeness auto
termination
  by (relation "measure (\<lambda>(bound, dup, c, d). nat (c - dup))") auto

declare cut_frame.simps [simp del]

text \<open>
  \<open>for (it = buffer.begin(); DRIFT >= adjustment_bound && it != buffer.end(); it++)\<close>
  around it (lines 394 to 400).
\<close>

fun drift_cut ::
  "int \<Rightarrow> int \<Rightarrow> ('f, 'c) Frame list \<Rightarrow> int \<Rightarrow> ('f, 'c) Frame list \<times> int" where
  "drift_cut bound dup [] d = ([], d)"
| "drift_cut bound dup (f # fs) d =
     (if d \<ge> bound then
        (let (c', d') = cut_frame bound dup (count f) d;
             (fs', d'') = drift_cut bound dup fs d'
         in (f\<lparr>count := c'\<rparr> # fs', d''))
      else (f # fs, d))"

text \<open>
  \<open>while ((*it)->count < duplicate_count) { (*it)->count++; DRIFT++; if (abs(DRIFT) < adjustment_bound) break; }\<close>
\<close>

function add_frame :: "int \<Rightarrow> int \<Rightarrow> int \<Rightarrow> int \<Rightarrow> int \<times> int" where
  "add_frame bound dup c d =
     (if c < dup
      then (if abs (d + 1) < bound then (c + 1, d + 1) else add_frame bound dup (c + 1) (d + 1))
      else (c, d))"
  by pat_completeness auto
termination
  by (relation "measure (\<lambda>(bound, dup, c, d). nat (dup - c))") auto

declare add_frame.simps [simp del]

text \<open>
  \<open>for (it = buffer.begin(); abs(DRIFT) >= adjustment_bound && it != buffer.end(); it++)\<close>
  around it (lines 405 to 411).
\<close>

fun drift_add ::
  "int \<Rightarrow> int \<Rightarrow> ('f, 'c) Frame list \<Rightarrow> int \<Rightarrow> ('f, 'c) Frame list \<times> int" where
  "drift_add bound dup [] d = ([], d)"
| "drift_add bound dup (f # fs) d =
     (if abs d \<ge> bound then
        (let (c', d') = add_frame bound dup (count f) d;
             (fs', d'') = drift_add bound dup fs d'
         in (f\<lparr>count := c'\<rparr> # fs', d''))
      else (f # fs, d))"

text \<open>
  The three branches of lines 360 to 412. C++ integer division truncates towards zero,
  which is \<open>sdiv\<close>.
\<close>

definition correcting :: "config \<Rightarrow> ('f, 'c) state \<Rightarrow> error + ('f, 'c) state" where
  "correcting cfg s =
     (if abs (DRIFT s) < adjustment_bound cfg then
        (case reallocate (duplicate_count cfg) (buffer_size cfg sdiv 2) (buffer s) of
           Inl e \<Rightarrow> Inl e
         | Inr buf \<Rightarrow> Inr (s\<lparr>buffer := buf\<rparr>))
      else if DRIFT s \<ge> adjustment_bound cfg then
        (let (buf, d) = drift_cut (adjustment_bound cfg) (duplicate_count cfg) (buffer s) (DRIFT s)
         in Inr (s\<lparr>buffer := buf, DRIFT := d\<rparr>))
      else
        (let (buf, d) = drift_add (adjustment_bound cfg) (duplicate_count cfg) (buffer s) (DRIFT s)
         in Inr (s\<lparr>buffer := buf, DRIFT := d\<rparr>)))"

section \<open>Eviction and the main loop\<close>

text \<open>
  Lines 414 to 425: write the front record, pop it, clear \<open>full\<close>, and push a new record
  made from \<open>tempframe\<close>, \<open>compframe\<close>, \<open>stdev\<close> and \<open>READ_INDEX\<close> as they stand.
\<close>

definition evict_admit :: "('f, 'c) state \<Rightarrow> ('f, 'c) state" where
  "evict_admit s =
     (let s1 = writeFrames (data (hd (buffer s))) (count (hd (buffer s))) s;
          s2 = s1\<lparr>buffer := tl (buffer s1), full := False\<rparr>
      in s2\<lparr>buffer := buffer s2 @ [newFrame s2]\<rparr>)"

text \<open>One iteration of \<open>while(!FINISHED)\<close> (lines 329 to 425).\<close>

definition cycle ::
  "('f, 'c) opencv \<Rightarrow> config \<Rightarrow> ('f, 'c) state \<Rightarrow> error + ('f, 'c) state" where
  "cycle cv cfg s =
     (let s1 = fill cv cfg s;
          s2 = update_drift cfg s1
      in case correcting cfg s2 of
           Inl e \<Rightarrow> Inl e
         | Inr s3 \<Rightarrow> Inr (evict_admit s3))"

lemma writeFrames_eq:
  "writeFrames frame cnt s =
     s\<lparr>VIDEO := VIDEO s @ replicate (nat cnt) frame,
       WRITE_INDEX := WRITE_INDEX s + (if cnt > 0 then cnt else 0)\<rparr>"
proof (induction frame cnt s rule: writeFrames.induct)
  case (1 frame cnt s)
  show ?case
  proof (cases "cnt > 0")
    case True
    then have n: "replicate (nat cnt) frame = frame # replicate (nat (cnt - 1)) frame"
      by (cases "nat cnt") (auto simp: nat_diff_distrib)
    have "writeFrames frame cnt s = writeFrames frame (cnt - 1)
             (s\<lparr>VIDEO := VIDEO s @ [frame], WRITE_INDEX := WRITE_INDEX s + 1\<rparr>)"
      using True by (subst writeFrames.simps) simp
    also note "1.IH" [OF True]
    finally show ?thesis using True by (simp add: n)
  next
    case False
    then show ?thesis by (subst writeFrames.simps) simp
  qed
qed

text \<open>
  What is left to do, for the termination of the main loop: the frames not yet read,
  and one more step while \<open>FINISHED\<close> is not set.
\<close>

definition todo :: "('f, 'c) state \<Rightarrow> nat" where
  "todo s = length (CAP s) + (if FINISHED s then 0 else 1)"

lemma todo_fill_body: "todo (fill_body cv cfg s) \<le> todo s"
  by (auto simp: todo_def fill_body_def readFrame_def matchFrames_def Let_def split: list.splits)

lemma todo_fill_body_less: "\<not> FINISHED s \<Longrightarrow> todo (fill_body cv cfg s) < todo s"
  by (auto simp: todo_def fill_body_def readFrame_def matchFrames_def Let_def split: list.splits)

lemma todo_fill: "todo (fill cv cfg s) \<le> todo s"
proof (induction cv cfg s rule: fill.induct)
  case (1 cv cfg s)
  show ?case
  proof (cases "full s")
    case True
    then show ?thesis by (subst fill.simps) simp
  next
    case False
    then have "fill cv cfg s = fill cv cfg (fill_body cv cfg s)" by (subst fill.simps) simp
    with "1.IH" [OF False] todo_fill_body [of cv cfg s] show ?thesis by simp
  qed
qed

lemma todo_fill_less:
  assumes "\<not> full s" "\<not> FINISHED s"
  shows "todo (fill cv cfg s) < todo s"
proof -
  from assms(1) have "fill cv cfg s = fill cv cfg (fill_body cv cfg s)"
    by (subst fill.simps) simp
  with todo_fill [of cv cfg "fill_body cv cfg s"] todo_fill_body_less [OF assms(2), of cv cfg]
  show ?thesis by simp
qed

lemma todo_update_drift: "todo (update_drift cfg s) = todo s"
  by (simp add: todo_def update_drift_def Let_def)

lemma todo_correcting: "correcting cfg s = Inr s' \<Longrightarrow> todo s' = todo s"
  by (auto simp: todo_def correcting_def Let_def split: if_splits sum.splits prod.splits)

lemma todo_evict_admit: "todo (evict_admit s) = todo s"
  by (simp add: todo_def evict_admit_def Let_def writeFrames_eq)

lemma full_evict_admit: "\<not> full (evict_admit s)"
  by (simp add: evict_admit_def Let_def writeFrames_eq)

lemma cycle_progress:
  assumes "cycle cv cfg s = Inr s'" "\<not> FINISHED s"
  shows "2 * todo s' + (if full s' then 1 else 0) < 2 * todo s + (if full s then 1 else 0)"
proof -
  from assms(1) obtain s3 where c: "correcting cfg (update_drift cfg (fill cv cfg s)) = Inr s3"
    and s': "s' = evict_admit s3"
    by (auto simp: cycle_def Let_def split: sum.splits)
  have t: "todo s' = todo (fill cv cfg s)"
    using todo_correcting [OF c] by (simp add: s' todo_evict_admit todo_update_drift)
  show ?thesis
  proof (cases "full s")
    case True
    then have "fill cv cfg s = s" by (subst fill.simps) simp
    with True t show ?thesis by (simp add: s' full_evict_admit)
  next
    case False
    from todo_fill_less [OF False assms(2), of cv cfg] t show ?thesis
      by (simp add: s' full_evict_admit)
  qed
qed

text \<open>
  \<open>while(!FINISHED) { ... }\<close> (lines 328 to 426). An out-of-range \<open>tofix\<close> ends the run
  with the error.
\<close>

function main_loop ::
  "('f, 'c) opencv \<Rightarrow> config \<Rightarrow> ('f, 'c) state \<Rightarrow> error + ('f, 'c) state" where
  "main_loop cv cfg s =
     (if FINISHED s then Inr s
      else (case cycle cv cfg s of
              Inl e \<Rightarrow> Inl e
            | Inr s' \<Rightarrow> main_loop cv cfg s'))"
  by pat_completeness auto
termination
proof (relation "measure (\<lambda>(cv, cfg, s). 2 * todo s + (if full s then 1 else 0))")
  show "wf (measure (\<lambda>(cv, cfg, s). 2 * todo s + (if full s then 1 else 0)))"
    by simp
next
  fix cv :: "('f, 'c) opencv" and cfg :: config and s s' :: "('f, 'c) state"
  assume "\<not> FINISHED s" and "cycle cv cfg s = Inr s'"
  from cycle_progress [OF this(2) this(1)]
  show "((cv, cfg, s'), (cv, cfg, s))
      \<in> measure (\<lambda>(cv, cfg, s). 2 * todo s + (if full s then 1 else 0))"
    by simp
qed

declare main_loop.simps [simp del]

text \<open>
  The cleanup stage (lines 432 to 436): every remaining record is written with its count.
\<close>

fun cleanup :: "('f, 'c) Frame list \<Rightarrow> ('f, 'c) state \<Rightarrow> ('f, 'c) state" where
  "cleanup [] s = s"
| "cleanup (f # fs) s = cleanup fs (writeFrames (data f) (count f) s)"

text \<open>
  The threshold setup of lines 235 to 243 and the initial values of the globals and of
  the locals of \<open>main\<close>.
\<close>

definition setup_THRESH :: "real \<Rightarrow> real \<Rightarrow> Threshold" where
  "setup_THRESH threshold_strict threshold_relaxed =
     (if threshold_strict > 0
      then \<lparr>value' = threshold_strict, strict = threshold_strict,
            relaxed = (if threshold_relaxed > 0 then threshold_relaxed
                       else 0.5 * threshold_strict)\<rparr>
      else \<lparr>value' = 0.5, strict = 0.5, relaxed = 0.25\<rparr>)"

definition initial :: "Threshold \<Rightarrow> 'f list \<Rightarrow> ('f, 'c) state" where
  "initial th src =
     \<lparr>CAP = src, VIDEO = [], THRESH = th, WRITE_INDEX = 0, READ_INDEX = - 1,
      FINISHED = False, DRIFT = 0, buffer = [], tempframe = Empty, compframe = Empty,
      stdev = 0, full = False, drift_update = 0\<rparr>"

text \<open>
  The first read and the first record (lines 316 to 325): the state at the first test of
  \<open>while(!FINISHED)\<close>, when the first read succeeds.
\<close>

definition start :: "('f, 'c) opencv \<Rightarrow> Threshold \<Rightarrow> 'f list \<Rightarrow> bool \<times> ('f, 'c) state" where
  "start cv th src =
     (let (ok, s0) = readFrame cv (initial th src)
      in if ok then (True, s0\<lparr>buffer := buffer s0 @ [newFrame s0]\<rparr>) else (False, s0))"

text \<open>
  \<open>main\<close> from line 307 on: the result is the exit status 0 with the final state, or
  the error of an out-of-range \<open>tofix\<close>.
\<close>

definition main ::
  "('f, 'c) opencv \<Rightarrow> config \<Rightarrow> Threshold \<Rightarrow> 'f list \<Rightarrow> error + int \<times> ('f, 'c) state" where
  "main cv cfg th src =
     (let (ok, s0) = start cv th src
      in case (if ok then main_loop cv cfg s0 else Inr s0) of
           Inl e \<Rightarrow> Inl e
         | Inr s1 \<Rightarrow>
             (let s2 = s1\<lparr>FINISHED := True\<rparr>;
                  s3 = cleanup (buffer s2) s2
              in Inr (0, s3\<lparr>buffer := []\<rparr>)))"


section \<open>The options of the command line\<close>

text \<open>
  The body of the loop over the option pairs (lines 209 to 226): the value is read as a
  \<open>double\<close>; a value that is not positive leaves the default in place (with the message
  \<open>all args must be positive values\<close>); any other value is assigned to the \<open>int\<close>
  variable of the option, which truncates it (for a positive value in the range of
  \<open>int\<close> that is \<open>floor\<close>). \<open>comparison_scale\<close> and the two thresholds are
  not fields of \<open>config\<close>; an unknown option is ignored.
\<close>

definition set_option :: "string \<Rightarrow> real \<Rightarrow> config \<Rightarrow> config" where
  "set_option arg val cfg =
     (if val \<le> 0 then cfg
      else if arg = ''-buffer_size'' then cfg\<lparr>buffer_size := \<lfloor>val\<rfloor>\<rparr>
      else if arg = ''-comparison_scale'' then cfg
      else if arg = ''-adjustment_bound'' then cfg\<lparr>adjustment_bound := \<lfloor>val\<rfloor>\<rparr>
      else if arg = ''-duplicate_count'' then cfg\<lparr>duplicate_count := \<lfloor>val\<rfloor>\<rparr>
      else cfg)"

text \<open>\<open>for (int i = 3; i < argc; i++)\<close> over the pairs of an option and its value.\<close>

fun parse_options :: "(string \<times> real) list \<Rightarrow> config \<Rightarrow> config" where
  "parse_options [] cfg = cfg"
| "parse_options ((arg, val) # rest) cfg = parse_options rest (set_option arg val cfg)"

section \<open>Closed forms of the write loops\<close>

lemma VIDEO_cleanup:
  "VIDEO (cleanup buf s) = VIDEO s @ concat (map (\<lambda>f. replicate (nat (count f)) (data f)) buf)"
  by (induction buf arbitrary: s) (simp_all add: writeFrames_eq)

lemma WRITE_INDEX_cleanup:
  "\<forall>f\<in>set buf. 0 \<le> count f \<Longrightarrow>
     WRITE_INDEX (cleanup buf s) = WRITE_INDEX s + sum_list (map count buf)"
  by (induction buf arbitrary: s) (simp_all add: writeFrames_eq)

section \<open>Fixtures for the concrete runs\<close>

text \<open>
  A stand-in for OpenCV in the concrete runs below: a frame is a number, its comparison
  image is the same number, and the score of two images is their distance.
\<close>

definition example_cv :: "(nat, nat) opencv" where
  "example_cv =
     \<lparr>gray_resize = (\<lambda>x. x),
      absdiff_std = (\<lambda>a b. case (a, b) of
                        (Img x, Img y) \<Rightarrow> real (if x > y then x - y else y - x)
                      | _ \<Rightarrow> 0)\<rparr>"

text \<open>The default options and thresholds of \<open>main\<close>, and the options with a smaller buffer.\<close>

definition default_config :: config where
  "default_config = \<lparr>buffer_size = 7, adjustment_bound = 5, duplicate_count = 2\<rparr>"

definition small_config :: "int \<Rightarrow> config" where
  "small_config n = \<lparr>buffer_size = n, adjustment_bound = 5, duplicate_count = 2\<rparr>"

definition default_THRESH :: Threshold where
  "default_THRESH = setup_THRESH (- 1) (- 1)"

text \<open>A buffered record of the fixtures: frame \<open>x\<close> with the given count and priority.\<close>

definition example_frame :: "nat \<Rightarrow> int \<Rightarrow> real \<Rightarrow> (nat, nat) Frame" where
  "example_frame x c p = \<lparr>data = Img x, compF = Img x, count = c, priority = p, index = int x\<rparr>"


text \<open>What \<open>main\<close> returns, reduced to the exit status and the frames written.\<close>

definition run_output ::
  "('f, 'c) opencv \<Rightarrow> config \<Rightarrow> Threshold \<Rightarrow> 'f list \<Rightarrow> error + int \<times> 'f Mat list" where
  "run_output cv cfg th src =
     (case main cv cfg th src of
        Inl e \<Rightarrow> Inl e
      | Inr (status, s) \<Rightarrow> Inr (status, VIDEO s))"

section \<open>The drift cut, unit by unit\<close>

text \<open>
  The cut of the drift controller as the specification words it: scan from the head;
  stop as soon as the drift is below the bound; at a record with more than
  \<open>duplicate_count\<close> copies take one copy and one unit of drift and look again;
  otherwise go on to the next record. It is compared with \<open>drift_cut\<close> below.
\<close>

function cut_by_units ::
  "int \<Rightarrow> int \<Rightarrow> ('f, 'c) Frame list \<Rightarrow> int \<Rightarrow> ('f, 'c) Frame list \<times> int" where
  "cut_by_units bound dup [] d = ([], d)"
| "cut_by_units bound dup (f # fs) d =
     (if d < bound then (f # fs, d)
      else if dup < count f
      then cut_by_units bound dup (f\<lparr>count := count f - 1\<rparr> # fs) (d - 1)
      else (let (fs', d') = cut_by_units bound dup fs d in (f # fs', d')))"
  by pat_completeness auto
termination
  by (relation "measure (\<lambda>(bound, dup, buf, d).
        sum_list (map (\<lambda>f. nat (count f - dup)) buf) + length buf)") auto

declare cut_by_units.simps [simp del]

text \<open>
  Scenario C: the drift is measured at 7 with the bound at 5, the window holds the
  counts 3, 2, 4, 3.
\<close>

definition scenario_C :: "(nat, nat) state" where
  "scenario_C =
     \<lparr>CAP = [5, 6], VIDEO = [], THRESH = default_THRESH, WRITE_INDEX = 8,
      READ_INDEX = 8, FINISHED = False, DRIFT = 7,
      buffer = [example_frame 1 3 3, example_frame 2 2 1, example_frame 3 4 1,
                example_frame 4 3 1],
      tempframe = Img 4, compframe = Img 4, stdev = 0, full = True, drift_update = 7\<rparr>"

text \<open>A window with too little to cut: drift 9, one copy in excess.\<close>

definition scenario_exhausted :: "(nat, nat) state" where
  "scenario_exhausted =
     \<lparr>CAP = [5, 6], VIDEO = [], THRESH = default_THRESH, WRITE_INDEX = 10,
      READ_INDEX = 8, FINISHED = False, DRIFT = 9,
      buffer = [example_frame 1 2 3, example_frame 2 3 1, example_frame 3 1 1],
      tempframe = Img 4, compframe = Img 4, stdev = 0, full = True, drift_update = 7\<rparr>"

section \<open>Notions for the statements about the reverse scans\<close>

text \<open>
  Position \<open>j\<close> holds the first record with property \<open>P\<close> that a scan from the tail
  towards the head meets.
\<close>

definition first_from_tail :: "('a \<Rightarrow> bool) \<Rightarrow> 'a list \<Rightarrow> nat \<Rightarrow> bool" where
  "first_from_tail P xs j =
     (j < length xs \<and> P (xs ! j) \<and> (\<forall>m. j < m \<and> m < length xs \<longrightarrow> \<not> P (xs ! m)))"

text \<open>
  Scenario B: the target (second record) has one copy and priority 3, every other record
  has two copies, and only the third record has a lower priority.
\<close>

definition scenario_B :: "(nat, nat) Frame list" where
  "scenario_B = [example_frame 1 2 5, example_frame 2 1 3, example_frame 3 2 1,
                 example_frame 4 2 4]"

section \<open>The states of a run\<close>

text \<open>
  The states a run passes between its steps: the state after the first record is stored;
  after one iteration of the filling loop; after the drift is measured; after one transfer
  of the slot reallocation; after the correction; after the eviction with the admission
  that follows it. The filling, every iteration of the main loop and the main loop as a
  whole stay inside these states (\<open>fill_reachable\<close>, \<open>cycle_reachable\<close>,
  \<open>main_loop_reachable\<close> below).
\<close>

inductive reachable :: "('f, 'c) opencv \<Rightarrow> config \<Rightarrow> ('f, 'c) state \<Rightarrow> bool"
  for cv :: "('f, 'c) opencv" and cfg :: config where
  first_record: "start cv th src = (True, s) \<Longrightarrow> reachable cv cfg s"
| admission: "reachable cv cfg s \<Longrightarrow> \<not> full s \<Longrightarrow> reachable cv cfg (fill_body cv cfg s)"
| drift_measured: "reachable cv cfg s \<Longrightarrow> full s \<Longrightarrow> reachable cv cfg (update_drift cfg s)"
| transferred:
    "reachable cv cfg s \<Longrightarrow> full s \<Longrightarrow> abs (DRIFT s) < adjustment_bound cfg \<Longrightarrow>
     0 \<le> buffer_size cfg sdiv 2 \<Longrightarrow> buffer_size cfg sdiv 2 < int (length (buffer s)) \<Longrightarrow>
     count (buffer s ! nat (buffer_size cfg sdiv 2)) < duplicate_count cfg \<Longrightarrow>
     realloc_pass (duplicate_count cfg) (nat (buffer_size cfg sdiv 2)) (buffer s) = Some buf' \<Longrightarrow>
     reachable cv cfg (s\<lparr>buffer := buf'\<rparr>)"
| corrected: "reachable cv cfg s \<Longrightarrow> full s \<Longrightarrow> correcting cfg s = Inr s' \<Longrightarrow> reachable cv cfg s'"
| evicted: "reachable cv cfg s \<Longrightarrow> full s \<Longrightarrow> reachable cv cfg (evict_admit s)"

text \<open>The window invariant: not empty, at most \<open>buffer_size\<close> records, every count at least 1.\<close>

definition window_ok :: "config \<Rightarrow> ('f, 'c) state \<Rightarrow> bool" where
  "window_ok cfg s =
     (buffer s \<noteq> [] \<and> int (length (buffer s)) \<le> buffer_size cfg
      \<and> (\<forall>f\<in>set (buffer s). 1 \<le> count f))"

text \<open>
  The hysteresis invariant: while a record is open (the filling loop has not set
  \<open>full\<close>) and its count has reached \<open>duplicate_count\<close>, the active threshold is the
  relaxed one.
\<close>

definition relaxed_when_reached :: "config \<Rightarrow> ('f, 'c) state \<Rightarrow> bool" where
  "relaxed_when_reached cfg s =
     (\<not> full s \<and> duplicate_count cfg \<le> count (last (buffer s))
        \<longrightarrow> value' (THRESH s) = relaxed (THRESH s))"

text \<open>Fixtures: the options with \<open>duplicate_count\<close> 1, and the state after the first record.\<close>

definition dup1_config :: config where
  "dup1_config = \<lparr>buffer_size = 7, adjustment_bound = 5, duplicate_count = 1\<rparr>"

definition first_state :: "nat list \<Rightarrow> (nat, nat) state" where
  "first_state src = snd (start example_cv default_THRESH src)"

text \<open>
  The options after \<open>-buffer_size 0.5\<close>, after \<open>-adjustment_bound 0.5 -duplicate_count 0.5\<close>
  and after \<open>-adjustment_bound 0.5\<close>, each on top of the defaults.
\<close>

definition zero_size_config :: config where
  "zero_size_config = parse_options [(''-buffer_size'', 0.5)] default_config"

definition zero_count_config :: config where
  "zero_count_config =
     parse_options [(''-adjustment_bound'', 0.5), (''-duplicate_count'', 0.5)] default_config"

definition zero_bound_config :: config where
  "zero_bound_config = parse_options [(''-adjustment_bound'', 0.5)] default_config"

text \<open>
  The states in which the first correction starts (the window is filled, the drift is
  measured): on the frames 1, 2 with \<open>zero_count_config\<close>, and on the frames
  1, 1, 1, 2, 3 with \<open>zero_bound_config\<close>.
\<close>

definition zero_count_measured :: "(nat, nat) state" where
  "zero_count_measured =
     update_drift zero_count_config (fill example_cv zero_count_config (first_state [1, 2]))"

definition zero_bound_measured :: "(nat, nat) state" where
  "zero_bound_measured =
     update_drift zero_bound_config
       (fill example_cv zero_bound_config (first_state [1, 1, 1, 2, 3]))"

text \<open>The state after the first iteration of the main loop on the frames 1, 1, 2, 3, 3.\<close>

definition after_first_cycle :: "(nat, nat) state" where
  "after_first_cycle = projr (cycle example_cv (small_config 3) (first_state [1, 1, 2, 3, 3]))"

text \<open>
  Scenario A: the state after the first record of a source \<open>a, a, b, c, c\<close>, and the
  window once the filling phase has read the whole source (match groups of sizes 2, 1, 2).
\<close>

definition scenario_A_start ::
  "('f, 'c) opencv \<Rightarrow> Threshold \<Rightarrow> 'f \<Rightarrow> 'f \<Rightarrow> 'f \<Rightarrow> ('f, 'c) state" where
  "scenario_A_start cv th a b c = snd (start cv th [a, a, b, c, c])"

definition scenario_A_window ::
  "('f, 'c) opencv \<Rightarrow> 'f \<Rightarrow> 'f \<Rightarrow> 'f \<Rightarrow> ('f, 'c) Frame list" where
  "scenario_A_window cv a b c =
     [\<lparr>data = Img a, compF = Img (gray_resize cv a), count = 2, priority = 0, index = 0\<rparr>,
      \<lparr>data = Img b, compF = Img (gray_resize cv b), count = 1,
        priority = absdiff_std cv (Img (gray_resize cv a)) (Img (gray_resize cv b)), index = 2\<rparr>,
      \<lparr>data = Img c, compF = Img (gray_resize cv c), count = 2,
        priority = absdiff_std cv (Img (gray_resize cv b)) (Img (gray_resize cv c)), index = 3\<rparr>]"

section \<open>C4: cancellation\<close>



section \<open>C9: the target record of the slot reallocation\<close>

text \<open>
  C9 does not hold of the code. With the default options (buffer size 7) and a source of
  a single frame, the filling phase ends at the end of the stream with one record
  buffered, the drift is 0, and the reallocation takes its target three positions after
  the first record of a one-element list: the run ends in the out-of-range access.
\<close>

theorem tofix_out_of_range_short_source:
  "main cv default_config th [a] = Inl IteratorOutOfRange"
  by (simp add: main_def start_def initial_def readFrame_def newFrame_def main_loop.simps
      cycle_def fill.simps fill_body_def update_drift_def correcting_def reallocate.simps
      signed_divide_int_def default_config_def Let_def)

section \<open>C3 and C5: the drift controller\<close>

lemma cut_frame_eq:
  "bound \<le> d \<Longrightarrow>
   cut_frame bound dup c d =
     (if dup < c
      then (c - min (c - dup) (d - bound + 1), d - min (c - dup) (d - bound + 1))
      else (c, d))"
proof (induction bound dup c d rule: cut_frame.induct)
  case (1 bound dup c d)
  show ?case
  proof (cases "dup < c")
    case False
    then show ?thesis by (subst cut_frame.simps) simp
  next
    case True
    show ?thesis
    proof (cases "d - 1 < bound")
      case stop: True
      with True "1.prems" show ?thesis by (subst cut_frame.simps) (simp add: min_def)
    next
      case go: False
      then have "bound \<le> d - 1" by simp
      from "1.IH" [OF True go this] True go show ?thesis
        by (subst cut_frame.simps) (auto simp: min_def)
    qed
  qed
qed

lemma add_frame_eq:
  "0 < bound \<Longrightarrow> d \<le> - bound \<Longrightarrow>
   add_frame bound dup c d =
     (if c < dup
      then (c + min (dup - c) (1 - bound - d), d + min (dup - c) (1 - bound - d))
      else (c, d))"
proof (induction bound dup c d rule: add_frame.induct)
  case (1 bound dup c d)
  show ?case
  proof (cases "c < dup")
    case False
    then show ?thesis by (subst add_frame.simps) simp
  next
    case True
    show ?thesis
    proof (cases "abs (d + 1) < bound")
      case stop: True
      with True "1.prems" show ?thesis by (subst add_frame.simps) (simp add: min_def)
    next
      case go: False
      with "1.prems" have "d + 1 \<le> - bound" by simp
      from "1.IH" [OF True go "1.prems"(1) this] True go "1.prems" show ?thesis
        by (subst add_frame.simps) (auto simp: min_def)
    qed
  qed
qed

lemma cut_frame_delta:
  "bound \<le> d \<Longrightarrow> cut_frame bound dup c d = (c', d') \<Longrightarrow>
     c - c' = d - d' \<and> bound - 1 \<le> d' \<and> d' \<le> d \<and> (d' < bound \<or> c' \<le> dup)
     \<and> (c \<le> dup \<longrightarrow> c' = c) \<and> (dup < c \<longrightarrow> dup \<le> c')"
  by (auto simp: cut_frame_eq min_def split: if_splits)

lemma drift_cut_length: "length (fst (drift_cut bound dup buf d)) = length buf"
  by (induction buf arbitrary: d) (simp_all add: split_beta Let_def)

lemma drift_cut_sum:
  "drift_cut bound dup buf d = (buf', d') \<Longrightarrow>
     sum_list (map count buf) - sum_list (map count buf') = d - d'"
proof (induction buf arbitrary: d buf' d')
  case Nil
  then show ?case by simp
next
  case (Cons f fs)
  show ?case
  proof (cases "bound \<le> d")
    case False
    with Cons.prems show ?thesis by simp
  next
    case True
    obtain c1 d1 where cf: "cut_frame bound dup (count f) d = (c1, d1)" by force
    obtain fs2 d2 where dc: "drift_cut bound dup fs d1 = (fs2, d2)" by force
    from Cons.prems True cf dc have r: "buf' = f\<lparr>count := c1\<rparr> # fs2" "d' = d2" by simp_all
    from cut_frame_delta [OF True cf] have "count f - c1 = d - d1" by simp
    with Cons.IH [OF dc] r show ?thesis by simp
  qed
qed

lemma drift_cut_stops:
  "bound \<le> d \<Longrightarrow> drift_cut bound dup buf d = (buf', d') \<Longrightarrow>
   bound - 1 \<le> d' \<and> d' \<le> d \<and> (d' < bound \<or> (\<forall>f\<in>set buf'. count f \<le> dup))"
proof (induction buf arbitrary: d buf' d')
  case Nil
  then show ?case by simp
next
  case (Cons f fs)
  obtain c1 d1 where cf: "cut_frame bound dup (count f) d = (c1, d1)" by force
  obtain fs2 d2 where dc: "drift_cut bound dup fs d1 = (fs2, d2)" by force
  from Cons.prems cf dc have r: "buf' = f\<lparr>count := c1\<rparr> # fs2" "d' = d2" by simp_all
  note c = cut_frame_delta [OF Cons.prems(1) cf]
  show ?case
  proof (cases "bound \<le> d1")
    case True
    from Cons.IH [OF True dc] c True r show ?thesis by auto
  next
    case False
    with dc have "fs2 = fs" "d2 = d1" by (cases fs; simp)+
    with c False r show ?thesis by simp
  qed
qed

lemma drift_cut_below: "d < bound \<Longrightarrow> drift_cut bound dup buf d = (buf, d)"
  by (cases buf) simp_all

lemma drift_add_inside: "abs d < bound \<Longrightarrow> drift_add bound dup buf d = (buf, d)"
  by (cases buf) simp_all

lemma drift_cut_pointwise:
  "bound \<le> d \<Longrightarrow> drift_cut bound dup buf d = (buf', d') \<Longrightarrow>
   list_all2 (\<lambda>f f'. f' = f\<lparr>count := count f'\<rparr> \<and> count f' \<le> count f
                \<and> min (count f) dup \<le> count f') buf buf'"
proof (induction buf arbitrary: d buf' d')
  case Nil
  then show ?case by simp
next
  case (Cons f fs)
  obtain c1 d1 where cf: "cut_frame bound dup (count f) d = (c1, d1)" by force
  obtain fs2 d2 where dc: "drift_cut bound dup fs d1 = (fs2, d2)" by force
  from Cons.prems cf dc have r: "buf' = f\<lparr>count := c1\<rparr> # fs2" "d' = d2" by simp_all
  note c = cut_frame_delta [OF Cons.prems(1) cf]
  have tl: "list_all2 (\<lambda>f f'. f' = f\<lparr>count := count f'\<rparr> \<and> count f' \<le> count f
                \<and> min (count f) dup \<le> count f') fs fs2"
  proof (cases "bound \<le> d1")
    case True
    from Cons.IH [OF True dc] show ?thesis .
  next
    case False
    with dc have "fs2 = fs" by (simp add: drift_cut_below)
    then show ?thesis by (simp add: list_all2_same)
  qed
  from c have "c1 \<le> count f" "min (count f) dup \<le> c1" by auto
  with tl r show ?case by simp
qed

lemma add_frame_delta:
  "0 < bound \<Longrightarrow> d \<le> - bound \<Longrightarrow> add_frame bound dup c d = (c', d') \<Longrightarrow>
     c' - c = d' - d \<and> d \<le> d' \<and> d' \<le> 1 - bound \<and> (abs d' < bound \<or> dup \<le> c')
     \<and> c \<le> c'"
  by (auto simp: add_frame_eq min_def split: if_splits)

lemma drift_add_stops:
  "0 < bound \<Longrightarrow> d \<le> - bound \<Longrightarrow> drift_add bound dup buf d = (buf', d') \<Longrightarrow>
   d \<le> d' \<and> d' \<le> 1 - bound \<and> (abs d' < bound \<or> (\<forall>f\<in>set buf'. dup \<le> count f))"
proof (induction buf arbitrary: d buf' d')
  case Nil
  then show ?case by simp
next
  case (Cons f fs)
  from Cons.prems(1,2) have big: "bound \<le> abs d" by simp
  obtain c1 d1 where cf: "add_frame bound dup (count f) d = (c1, d1)" by force
  obtain fs2 d2 where dc: "drift_add bound dup fs d1 = (fs2, d2)" by force
  from Cons.prems(3) big cf dc have r: "buf' = f\<lparr>count := c1\<rparr> # fs2" "d' = d2" by simp_all
  note c = add_frame_delta [OF Cons.prems(1,2) cf]
  show ?case
  proof (cases "abs d1 < bound")
    case True
    with dc have "fs2 = fs" "d2 = d1" by (simp_all add: drift_add_inside)
    with c True r show ?thesis by simp
  next
    case False
    with c Cons.prems(1) have "d1 \<le> - bound" by arith
    from Cons.IH [OF Cons.prems(1) this dc] c False r show ?thesis by auto
  qed
qed

lemma drift_add_counts:
  "0 < bound \<Longrightarrow> d \<le> - bound \<Longrightarrow> drift_add bound dup buf d = (buf', d') \<Longrightarrow>
   list_all2 (\<lambda>f f'. f' = f\<lparr>count := count f'\<rparr> \<and> count f \<le> count f') buf buf'"
proof (induction buf arbitrary: d buf' d')
  case Nil
  then show ?case by simp
next
  case (Cons f fs)
  from Cons.prems(1,2) have big: "bound \<le> abs d" by simp
  obtain c1 d1 where cf: "add_frame bound dup (count f) d = (c1, d1)" by force
  obtain fs2 d2 where dc: "drift_add bound dup fs d1 = (fs2, d2)" by force
  from Cons.prems(3) big cf dc have r: "buf' = f\<lparr>count := c1\<rparr> # fs2" "d' = d2" by simp_all
  note c = add_frame_delta [OF Cons.prems(1,2) cf]
  have tl: "list_all2 (\<lambda>f f'. f' = f\<lparr>count := count f'\<rparr> \<and> count f \<le> count f') fs fs2"
  proof (cases "abs d1 < bound")
    case True
    with dc have "fs2 = fs" by (simp add: drift_add_inside)
    then show ?thesis by (simp add: list_all2_same)
  next
    case False
    with c Cons.prems(1) have "d1 \<le> - bound" by arith
    from Cons.IH [OF Cons.prems(1) this dc] show ?thesis .
  qed
  from c tl r show ?case by simp
qed

lemma drift_cut_by_units: "drift_cut bound dup buf d = cut_by_units bound dup buf d"
proof (induction bound dup buf d rule: cut_by_units.induct)
  case (1 bound dup d)
  show ?case by (simp add: cut_by_units.simps)
next
  case (2 bound dup f fs d)
  show ?case
  proof (cases "d < bound")
    case True
    then show ?thesis by (simp add: cut_by_units.simps)
  next
    case low: False
    show ?thesis
    proof (cases "dup < count f")
      case False
      with low "2.IH"(2) show ?thesis
        by (simp add: cut_by_units.simps cut_frame.simps [of bound dup "count f" d])
    next
      case True
      have "drift_cut bound dup (f # fs) d
              = drift_cut bound dup (f\<lparr>count := count f - 1\<rparr> # fs) (d - 1)"
      proof (cases "d - 1 < bound")
        case stop: True
        with low True show ?thesis
          by (simp add: cut_frame.simps [of bound dup "count f" d] drift_cut_below)
      next
        case False
        with low True show ?thesis
          by (simp add: cut_frame.simps [of bound dup "count f" d])
      qed
      with low True "2.IH"(1) show ?thesis
        by (simp add: cut_by_units.simps)
    qed
  qed
qed

text \<open>
  Confirmed (C3). When the drift is at or above the adjustment bound, the correcting phase
  takes the cutting branch and never fails. It scans from the head to the tail and takes one
  copy and one unit of drift at a time from each record that has more than
  \<open>duplicate_count\<close> copies (the unit-by-unit scan above), it stops as soon as the drift
  is below the bound (at exactly one below it) or the window is exhausted with no record
  above \<open>duplicate_count\<close>, the copies removed equal the drift removed, and no record is
  cut below \<open>duplicate_count\<close> or below what it had.
\<close>

theorem correcting_cuts_drift:
  assumes "adjustment_bound cfg \<le> DRIFT s"
  shows "\<exists>buf' d'.
           correcting cfg s = Inr (s\<lparr>buffer := buf', DRIFT := d'\<rparr>)
         \<and> (buf', d') = cut_by_units (adjustment_bound cfg) (duplicate_count cfg) (buffer s) (DRIFT s)
         \<and> (d' < adjustment_bound cfg \<or> (\<forall>f\<in>set buf'. count f \<le> duplicate_count cfg))
         \<and> adjustment_bound cfg - 1 \<le> d'
         \<and> sum_list (map count (buffer s)) - sum_list (map count buf') = DRIFT s - d'
         \<and> list_all2 (\<lambda>f f'. f' = f\<lparr>count := count f'\<rparr> \<and> count f' \<le> count f
                           \<and> min (count f) (duplicate_count cfg) \<le> count f') (buffer s) buf'"
proof -
  obtain buf' d' where
    dc: "drift_cut (adjustment_bound cfg) (duplicate_count cfg) (buffer s) (DRIFT s) = (buf', d')"
    by force
  from assms have "\<not> abs (DRIFT s) < adjustment_bound cfg" by simp
  with assms dc have "correcting cfg s = Inr (s\<lparr>buffer := buf', DRIFT := d'\<rparr>)"
    by (simp add: correcting_def)
  moreover from dc have "(buf', d')
      = cut_by_units (adjustment_bound cfg) (duplicate_count cfg) (buffer s) (DRIFT s)"
    by (simp add: drift_cut_by_units)
  moreover note drift_cut_stops [OF assms dc] drift_cut_sum [OF dc]
    drift_cut_pointwise [OF assms dc]
  ultimately show ?thesis by blast
qed

text \<open>
  Scenario C: bound 5, drift 7 and counts 3, 2, 4, 3 give the counts 2, 2, 2, 3 and the
  drift 4.
\<close>

theorem correcting_cuts_drift_witness:
  "adjustment_bound default_config = 5 \<and> DRIFT scenario_C = 7
   \<and> map count (buffer scenario_C) = [3, 2, 4, 3]
   \<and> map_sum id (\<lambda>s. (map count (buffer s), DRIFT s)) (correcting default_config scenario_C)
       = Inr ([2, 2, 2, 3], 4)"
proof -
  have h: "adjustment_bound default_config \<le> DRIFT scenario_C"
    by (simp add: default_config_def scenario_C_def)
  have run: "map_sum id (\<lambda>s. (map count (buffer s), DRIFT s))
      (correcting default_config scenario_C) = Inr ([2, 2, 2, 3], 4)"
    by (simp add: default_config_def scenario_C_def example_frame_def correcting_def
        cut_frame.simps)
  from correcting_cuts_drift [OF h] obtain buf' d' where
    "correcting default_config scenario_C = Inr (scenario_C\<lparr>buffer := buf', DRIFT := d'\<rparr>)"
    by blast
  with run show ?thesis
    by (simp add: default_config_def scenario_C_def example_frame_def)
qed

text \<open>
  The drift bound for a positive \<open>adjustment_bound\<close>: after a correcting phase that
  completes the absolute drift is below the bound, unless the drift was too high and the
  scan ended with no record above \<open>duplicate_count\<close> left to cut, or the drift was too
  low and the scan ended with no record below \<open>duplicate_count\<close> left to raise. The
  bound 0, which the option parser lets through, is treated in the section on the
  truncated options.
\<close>

lemma drift_bounded_after_correcting:
  assumes pos: "0 < adjustment_bound cfg" and run: "correcting cfg s = Inr s'"
  shows "abs (DRIFT s') < adjustment_bound cfg
         \<or> (adjustment_bound cfg \<le> DRIFT s' \<and> adjustment_bound cfg \<le> DRIFT s
            \<and> (\<forall>f\<in>set (buffer s'). count f \<le> duplicate_count cfg))
         \<or> (DRIFT s' \<le> - adjustment_bound cfg \<and> DRIFT s \<le> - adjustment_bound cfg
            \<and> (\<forall>f\<in>set (buffer s'). duplicate_count cfg \<le> count f))"
proof (cases "abs (DRIFT s) < adjustment_bound cfg")
  case True
  with run have "DRIFT s' = DRIFT s"
    by (auto simp: correcting_def split: sum.splits)
  with True show ?thesis by simp
next
  case out: False
  show ?thesis
  proof (cases "adjustment_bound cfg \<le> DRIFT s")
    case True
    obtain buf' d' where
      dc: "drift_cut (adjustment_bound cfg) (duplicate_count cfg) (buffer s) (DRIFT s) = (buf', d')"
      by force
    with run out True have s': "buffer s' = buf'" "DRIFT s' = d'"
      by (auto simp: correcting_def)
    from drift_cut_stops [OF True dc] pos s' True show ?thesis by auto
  next
    case False
    with out have low: "DRIFT s \<le> - adjustment_bound cfg" by arith
    obtain buf' d' where
      da: "drift_add (adjustment_bound cfg) (duplicate_count cfg) (buffer s) (DRIFT s) = (buf', d')"
      by force
    from out False da have "correcting cfg s = Inr (s\<lparr>buffer := buf', DRIFT := d'\<rparr>)"
      by (simp only: correcting_def if_False Let_def prod.case)
    with run have s': "buffer s' = buf'" "DRIFT s' = d'" by auto
    from drift_add_stops [OF pos low da] have
      "d' \<le> 1 - adjustment_bound cfg"
      "abs d' < adjustment_bound cfg \<or> (\<forall>f\<in>set buf'. duplicate_count cfg \<le> count f)"
      by simp_all
    moreover from this(1) pos have "\<not> abs d' < adjustment_bound cfg \<Longrightarrow> d' \<le> - adjustment_bound cfg"
      by arith
    ultimately show ?thesis using s' low by auto
  qed
qed

text \<open>
  Two runs: scenario C ends within the bound; the window with one copy in excess is
  exhausted at drift 8.
\<close>

lemma drift_bounded_after_correcting_witness:
  "0 < adjustment_bound default_config
   \<and> map_sum id (\<lambda>s. (map count (buffer s), DRIFT s)) (correcting default_config scenario_C)
       = Inr ([2, 2, 2, 3], 4)
   \<and> abs (4 :: int) < adjustment_bound default_config
   \<and> map_sum id (\<lambda>s. (map count (buffer s), DRIFT s))
        (correcting default_config scenario_exhausted) = Inr ([2, 2, 1], 8)
   \<and> list_all (\<lambda>c. c \<le> duplicate_count default_config) [2, 2, 1]"
proof -
  have pos: "0 < adjustment_bound default_config" by (simp add: default_config_def)
  have r1: "correcting default_config scenario_C
      = Inr (scenario_C\<lparr>buffer := [example_frame 1 2 3, example_frame 2 2 1,
                example_frame 3 2 1, example_frame 4 3 1], DRIFT := 4\<rparr>)"
    by (simp add: default_config_def scenario_C_def example_frame_def correcting_def
        cut_frame.simps)
  have r2: "correcting default_config scenario_exhausted
      = Inr (scenario_exhausted\<lparr>buffer := [example_frame 1 2 3, example_frame 2 2 1,
                example_frame 3 1 1], DRIFT := 8\<rparr>)"
    by (simp add: default_config_def scenario_exhausted_def example_frame_def correcting_def
        cut_frame.simps)
  have dup: "duplicate_count default_config = 2" and bound: "adjustment_bound default_config = 5"
    by (simp_all add: default_config_def)
  from drift_bounded_after_correcting [OF pos r1] drift_bounded_after_correcting [OF pos r2]
  show ?thesis
    by (simp add: r1 r2 dup bound example_frame_def)
qed

section \<open>C1: the slot reallocation\<close>

lemma sum_list_update_int:
  fixes xs :: "int list"
  shows "k < length xs \<Longrightarrow> sum_list (xs[k := x]) = sum_list xs + x - xs ! k"
proof (induction xs arbitrary: k)
  case Nil
  then show ?case by simp
next
  case (Cons y ys)
  then show ?case by (cases k) simp_all
qed

lemma rscan_first_from_tail:
  "rscan P xs (length xs) = Some j \<longleftrightarrow> first_from_tail P xs j"
proof
  assume "rscan P xs (length xs) = Some j"
  from rscan_Some [OF this] show "first_from_tail P xs j"
    by (simp add: first_from_tail_def)
next
  assume f: "first_from_tail P xs j"
  show "rscan P xs (length xs) = Some j"
  proof (cases "rscan P xs (length xs)")
    case None
    with f show ?thesis by (auto simp: rscan_None first_from_tail_def)
  next
    case (Some k)
    from rscan_Some [OF Some] f have "k = j"
      by (metis first_from_tail_def linorder_neqE_nat)
    with Some show ?thesis by simp
  qed
qed

lemma rscan_None_set: "rscan P xs (length xs) = None \<longleftrightarrow> (\<forall>x\<in>set xs. \<not> P x)"
  by (metis rscan_None in_set_conv_nth)

lemma sum_count_update:
  "k < length buf \<Longrightarrow>
     sum_list (map count (buf[k := f])) = sum_list (map count buf) + count f - count (buf ! k)"
  by (simp add: map_update sum_list_update_int)

lemma sum_count_transfer:
  assumes "i < length buf" "j < length buf"
  shows "sum_list (map count (transfer j i buf)) = sum_list (map count buf)"
proof -
  let ?b1 = "buf[j := (buf ! j)\<lparr>count := count (buf ! j) - 1\<rparr>]"
  from assms(2) have 1: "sum_list (map count ?b1) = sum_list (map count buf) - 1"
    by (simp add: sum_count_update)
  from assms(1) have "i < length ?b1" by simp
  from sum_count_update [OF this, of "(?b1 ! i)\<lparr>count := count (?b1 ! i) + 1\<rparr>"]
  have "sum_list (map count (?b1[i := (?b1 ! i)\<lparr>count := count (?b1 ! i) + 1\<rparr>]))
          = sum_list (map count ?b1) + 1"
    by simp
  with 1 show ?thesis by (simp add: transfer_def Let_def)
qed

lemma transfer_nth:
  assumes "i < length buf" "j < length buf" "j \<noteq> i"
  shows "transfer j i buf ! j = (buf ! j)\<lparr>count := count (buf ! j) - 1\<rparr>"
    and "transfer j i buf ! i = (buf ! i)\<lparr>count := count (buf ! i) + 1\<rparr>"
    and "m \<noteq> i \<Longrightarrow> m \<noteq> j \<Longrightarrow> transfer j i buf ! m = buf ! m"
  using assms by (simp_all add: transfer_def Let_def)

lemma reallocate_unfold:
  "0 \<le> n \<Longrightarrow> n < int (length buf) \<Longrightarrow>
   reallocate dup n buf =
     (if count (buf ! nat n) < dup
      then (case realloc_pass dup (nat n) buf of
              Some buf' \<Rightarrow> reallocate dup n buf'
            | None \<Rightarrow> Inr buf)
      else Inr buf)"
  by (subst reallocate.simps) simp

lemma realloc_pass_safe:
  "first_from_tail (\<lambda>f. dup < count f) buf j \<Longrightarrow>
     realloc_pass dup i buf = Some (transfer j i buf)"
  by (simp add: realloc_pass_def rscan_first_from_tail [symmetric])

lemma realloc_pass_priority:
  "\<forall>f\<in>set buf. \<not> dup < count f \<Longrightarrow>
   first_from_tail (\<lambda>f. priority f < priority (buf ! i) \<and> 1 < count f) buf j \<Longrightarrow>
     realloc_pass dup i buf = Some (transfer j i buf)"
  by (simp add: realloc_pass_def rscan_first_from_tail [symmetric] rscan_None_set [symmetric])

lemma realloc_pass_None:
  "realloc_pass dup i buf = None \<longleftrightarrow>
     (\<forall>f\<in>set buf. \<not> dup < count f \<and> \<not> (priority f < priority (buf ! i) \<and> 1 < count f))"
proof -
  have "realloc_pass dup i buf = None \<longleftrightarrow>
      rscan (\<lambda>f. dup < count f) buf (length buf) = None
      \<and> rscan (\<lambda>f. priority f < priority (buf ! i) \<and> 1 < count f) buf (length buf) = None"
    by (simp add: realloc_pass_def split: option.splits)
  then show ?thesis
    unfolding rscan_None_set by blast
qed

lemma realloc_pass_cases:
  assumes "realloc_pass dup i buf = Some buf'" and "count (buf ! i) < dup"
  shows "\<exists>j<length buf. j \<noteq> i \<and> buf' = transfer j i buf
           \<and> (dup < count (buf ! j) \<or> 1 < count (buf ! j))"
proof (cases "rscan (\<lambda>f. count f > dup) buf (length buf)")
  case (Some j)
  from rscan_Some [OF Some] assms(2) have "j < length buf" "j \<noteq> i" "dup < count (buf ! j)"
    by auto
  moreover from Some assms(1) have "buf' = transfer j i buf"
    by (simp add: realloc_pass_def)
  ultimately show ?thesis by blast
next
  case None
  with assms(1) obtain j where
    j: "rscan (\<lambda>f. priority f < priority (buf ! i) \<and> count f > 1) buf (length buf) = Some j"
    and b: "buf' = transfer j i buf"
    by (auto simp: realloc_pass_def split: option.splits)
  from rscan_Some [OF j] have "j < length buf" "j \<noteq> i" "1 < count (buf ! j)" by auto
  with b show ?thesis by blast
qed

lemma only_counts_trans:
  "list_all2 (\<lambda>f f'. f' = f\<lparr>count := count f'\<rparr>) xs ys \<Longrightarrow>
   list_all2 (\<lambda>f f'. f' = f\<lparr>count := count f'\<rparr>) ys zs \<Longrightarrow>
   list_all2 (\<lambda>f f'. f' = f\<lparr>count := count f'\<rparr>) xs (zs :: ('f, 'c) Frame list)"
proof (rule list_all2_trans)
  fix a b c :: "('f, 'c) Frame"
  assume "b = a\<lparr>count := count b\<rparr>" "c = b\<lparr>count := count c\<rparr>"
  then have "c = (a\<lparr>count := count b\<rparr>)\<lparr>count := count c\<rparr>" by simp
  then show "c = a\<lparr>count := count c\<rparr>" by simp
qed

lemma update_only_count:
  "list_all2 (\<lambda>f f'. f' = f\<lparr>count := count f'\<rparr>) buf (buf[k := (buf ! k)\<lparr>count := c\<rparr>])"
proof (cases "k < length buf")
  case True
  then show ?thesis by (auto simp: list_all2_conv_all_nth nth_list_update)
next
  case False
  then have "length buf \<le> k" by simp
  then have "buf[k := (buf ! k)\<lparr>count := c\<rparr>] = buf" by (rule list_update_beyond)
  then show ?thesis by (simp add: list_all2_conv_all_nth)
qed

lemma transfer_only_counts:
  "list_all2 (\<lambda>f f'. f' = f\<lparr>count := count f'\<rparr>) buf (transfer j i buf)"
  unfolding transfer_def Let_def
  by (rule only_counts_trans [OF update_only_count update_only_count])

lemma reallocate_result:
  "0 \<le> n \<Longrightarrow> n < int (length buf) \<Longrightarrow>
   \<exists>buf'. reallocate dup n buf = Inr buf' \<and> length buf' = length buf
      \<and> sum_list (map count buf') = sum_list (map count buf)
      \<and> list_all2 (\<lambda>f f'. f' = f\<lparr>count := count f'\<rparr>) buf buf'
      \<and> count (buf ! nat n) \<le> count (buf' ! nat n)
      \<and> (count (buf ! nat n) \<le> dup \<longrightarrow> count (buf' ! nat n) \<le> dup)
      \<and> (dup \<le> count (buf' ! nat n) \<or> realloc_pass dup (nat n) buf' = None)"
proof (induction dup n buf rule: reallocate.induct)
  case (1 dup n buf)
  note range = "1.prems"
  show ?case
  proof (cases "count (buf ! nat n) < dup")
    case False
    with range show ?thesis
      by (simp add: reallocate_unfold list_all2_same)
  next
    case low: True
    show ?thesis
    proof (cases "realloc_pass dup (nat n) buf")
      case None
      with low range show ?thesis
        by (simp add: reallocate_unfold list_all2_same)
    next
      case (Some x)
      from realloc_pass_cases [OF Some low] obtain j where
        j: "j < length buf" "j \<noteq> nat n" and x: "x = transfer j (nat n) buf" by blast
      from range have i: "nat n < length buf" by linarith
      have len: "length x = length buf" by (simp add: x length_transfer)
      with range have range': "n < int (length x)" by simp
      from range have nr: "\<not> (n < 0 \<or> int (length buf) \<le> n)" by simp
      from "1.IH" [OF nr low Some range(1) range'] obtain buf' where
        r: "reallocate dup n x = Inr buf'" "length buf' = length x"
           "sum_list (map count buf') = sum_list (map count x)"
           "list_all2 (\<lambda>f f'. f' = f\<lparr>count := count f'\<rparr>) x buf'"
           "count (x ! nat n) \<le> count (buf' ! nat n)"
           "count (x ! nat n) \<le> dup \<longrightarrow> count (buf' ! nat n) \<le> dup"
           "dup \<le> count (buf' ! nat n) \<or> realloc_pass dup (nat n) buf' = None"
        by blast
      have cx: "count (x ! nat n) = count (buf ! nat n) + 1"
        using i j by (simp add: x count_transfer_target)
      have "reallocate dup n buf = Inr buf'"
        using range low Some r(1) by (simp add: reallocate_unfold)
      moreover have "sum_list (map count buf') = sum_list (map count buf)"
        using r(3) i j by (simp add: x sum_count_transfer)
      moreover have "list_all2 (\<lambda>f f'. f' = f\<lparr>count := count f'\<rparr>) buf buf'"
        using only_counts_trans [OF transfer_only_counts r(4) [unfolded x]] .
      ultimately show ?thesis using r(2,5,6,7) len cx low by auto
    qed
  qed
qed

lemma transfer_eq:
  "j < length buf \<Longrightarrow> j \<noteq> i \<Longrightarrow>
   transfer j i buf = buf[j := (buf ! j)\<lparr>count := count (buf ! j) - 1\<rparr>,
                          i := (buf ! i)\<lparr>count := count (buf ! i) + 1\<rparr>]"
  by (simp add: transfer_def Let_def)

lemma reallocate_step_safe:
  assumes "0 \<le> n" "n < int (length buf)" "count (buf ! nat n) < dup"
    and "first_from_tail (\<lambda>f. dup < count f) buf j"
  shows "reallocate dup n buf = reallocate dup n (transfer j (nat n) buf)"
  using assms(1-3) realloc_pass_safe [OF assms(4), of "nat n"]
  by (simp add: reallocate_unfold)

lemma reallocate_step_priority:
  assumes "0 \<le> n" "n < int (length buf)" "count (buf ! nat n) < dup"
    and "\<forall>f\<in>set buf. \<not> dup < count f"
    and "first_from_tail (\<lambda>f. priority f < priority (buf ! nat n) \<and> 1 < count f) buf j"
  shows "reallocate dup n buf = reallocate dup n (transfer j (nat n) buf)"
  using assms(1-3) realloc_pass_priority [OF assms(4,5)]
  by (simp add: reallocate_unfold)

lemma reallocate_step_none:
  assumes "0 \<le> n" "n < int (length buf)"
    and "\<forall>f\<in>set buf. \<not> dup < count f
           \<and> \<not> (priority f < priority (buf ! nat n) \<and> 1 < count f)"
  shows "reallocate dup n buf = Inr buf"
  using assms(1,2) assms(3) [folded realloc_pass_None]
  by (simp add: reallocate_unfold)

lemma reallocate_scenario_B:
  assumes range: "0 \<le> n" "n < int (length buf)"
    and target: "count (buf ! nat n) = 1"
    and others: "\<forall>m<length buf. m \<noteq> nat n \<longrightarrow> count (buf ! m) = 2"
    and donor: "first_from_tail (\<lambda>f. priority f < priority (buf ! nat n)) buf j"
  shows "reallocate 2 n buf
           = Inr (buf[j := (buf ! j)\<lparr>count := 1\<rparr>, nat n := (buf ! nat n)\<lparr>count := 2\<rparr>])"
proof -
  from range have i: "nat n < length buf" by linarith
  from donor have j: "j < length buf" "priority (buf ! j) < priority (buf ! nat n)"
    and after: "\<forall>m. j < m \<and> m < length buf \<longrightarrow> \<not> priority (buf ! m) < priority (buf ! nat n)"
    by (simp_all add: first_from_tail_def)
  from j(2) have ne: "j \<noteq> nat n" by auto
  with others j(1) have cj: "count (buf ! j) = 2" by simp
  have nosafe: "\<forall>f\<in>set buf. \<not> 2 < count f"
  proof
    fix f assume "f \<in> set buf"
    then obtain m where "m < length buf" "f = buf ! m" by (auto simp: in_set_conv_nth)
    with others target show "\<not> 2 < count f" by (cases "m = nat n") auto
  qed
  from j cj after have
    "first_from_tail (\<lambda>f. priority f < priority (buf ! nat n) \<and> 1 < count f) buf j"
    by (simp add: first_from_tail_def)
  from reallocate_step_priority [OF range _ nosafe this] target
  have "reallocate 2 n buf = reallocate 2 n (transfer j (nat n) buf)" by simp
  also have "\<dots> = Inr (transfer j (nat n) buf)"
    using range i ne by (simp add: reallocate_unfold length_transfer count_transfer_target target)
  also have "transfer j (nat n) buf
      = buf[j := (buf ! j)\<lparr>count := 1\<rparr>, nat n := (buf ! nat n)\<lparr>count := 2\<rparr>]"
    using j(1) ne cj target by (simp add: transfer_eq)
  finally show ?thesis .
qed

text \<open>
  Confirmed (C1). For a target inside the window: the reallocation does nothing when the
  target already has \<open>duplicate_count\<close> copies. Below that, one round moves one copy
  from the first record, scanning from the tail, that has more than \<open>duplicate_count\<close>
  copies, and starts over; only when no record has more than \<open>duplicate_count\<close> copies
  it moves one copy from the first record, scanning from the tail, whose priority is
  strictly lower than the target's and that has more than one copy, and starts over; when
  neither scan finds a donor it stops. A move takes one copy from the donor and gives one
  to the target. The procedure always returns; it changes nothing but counts and keeps
  their sum; it ends with the target at \<open>duplicate_count\<close> or with no donor of either
  kind left. In scenario B (target at 1, every other record at exactly 2, with
  \<open>duplicate_count\<close> 2) the first lower-priority record from the tail goes down to 1
  and the target up to 2.
\<close>

theorem slot_reallocation:
  assumes "0 \<le> n" and "n < int (length buf)"
  shows "(dup \<le> count (buf ! nat n) \<longrightarrow> reallocate dup n buf = Inr buf)
   \<and> (count (buf ! nat n) < dup \<longrightarrow>
        (\<forall>j. first_from_tail (\<lambda>f. dup < count f) buf j \<longrightarrow>
           reallocate dup n buf = reallocate dup n (transfer j (nat n) buf))
      \<and> ((\<forall>f\<in>set buf. \<not> dup < count f) \<longrightarrow>
           (\<forall>j. first_from_tail (\<lambda>f. priority f < priority (buf ! nat n) \<and> 1 < count f) buf j \<longrightarrow>
              reallocate dup n buf = reallocate dup n (transfer j (nat n) buf)))
      \<and> ((\<forall>f\<in>set buf. \<not> dup < count f
              \<and> \<not> (priority f < priority (buf ! nat n) \<and> 1 < count f)) \<longrightarrow>
           reallocate dup n buf = Inr buf))
   \<and> (\<forall>j. j < length buf \<and> j \<noteq> nat n \<longrightarrow>
         transfer j (nat n) buf
           = buf[j := (buf ! j)\<lparr>count := count (buf ! j) - 1\<rparr>,
                 nat n := (buf ! nat n)\<lparr>count := count (buf ! nat n) + 1\<rparr>])
   \<and> (\<exists>buf'. reallocate dup n buf = Inr buf' \<and> length buf' = length buf
         \<and> sum_list (map count buf') = sum_list (map count buf)
         \<and> list_all2 (\<lambda>f f'. f' = f\<lparr>count := count f'\<rparr>) buf buf'
         \<and> count (buf ! nat n) \<le> count (buf' ! nat n)
         \<and> (count (buf ! nat n) \<le> dup \<longrightarrow> count (buf' ! nat n) \<le> dup)
         \<and> (dup \<le> count (buf' ! nat n)
            \<or> (\<forall>f\<in>set buf'. \<not> dup < count f
                  \<and> \<not> (priority f < priority (buf' ! nat n) \<and> 1 < count f))))
   \<and> (dup = 2 \<and> count (buf ! nat n) = 1
        \<and> (\<forall>m<length buf. m \<noteq> nat n \<longrightarrow> count (buf ! m) = 2) \<longrightarrow>
        (\<forall>j. first_from_tail (\<lambda>f. priority f < priority (buf ! nat n)) buf j \<longrightarrow>
           reallocate dup n buf
             = Inr (buf[j := (buf ! j)\<lparr>count := 1\<rparr>, nat n := (buf ! nat n)\<lparr>count := 2\<rparr>])))"
proof (intro conjI impI allI)
  assume "dup \<le> count (buf ! nat n)"
  with assms show "reallocate dup n buf = Inr buf" by (simp add: reallocate_unfold)
next
  fix j
  assume "count (buf ! nat n) < dup" "first_from_tail (\<lambda>f. dup < count f) buf j"
  with assms show "reallocate dup n buf = reallocate dup n (transfer j (nat n) buf)"
    by (rule reallocate_step_safe)
next
  fix j
  assume "count (buf ! nat n) < dup" "\<forall>f\<in>set buf. \<not> dup < count f"
    "first_from_tail (\<lambda>f. priority f < priority (buf ! nat n) \<and> 1 < count f) buf j"
  with assms show "reallocate dup n buf = reallocate dup n (transfer j (nat n) buf)"
    by (rule reallocate_step_priority)
next
  assume "\<forall>f\<in>set buf. \<not> dup < count f
           \<and> \<not> (priority f < priority (buf ! nat n) \<and> 1 < count f)"
  with assms show "reallocate dup n buf = Inr buf" by (rule reallocate_step_none)
next
  fix j
  assume "j < length buf \<and> j \<noteq> nat n"
  then show "transfer j (nat n) buf
           = buf[j := (buf ! j)\<lparr>count := count (buf ! j) - 1\<rparr>,
                 nat n := (buf ! nat n)\<lparr>count := count (buf ! nat n) + 1\<rparr>]"
    by (simp add: transfer_eq)
next
  from reallocate_result [OF assms, of dup]
  show "\<exists>buf'. reallocate dup n buf = Inr buf' \<and> length buf' = length buf
         \<and> sum_list (map count buf') = sum_list (map count buf)
         \<and> list_all2 (\<lambda>f f'. f' = f\<lparr>count := count f'\<rparr>) buf buf'
         \<and> count (buf ! nat n) \<le> count (buf' ! nat n)
         \<and> (count (buf ! nat n) \<le> dup \<longrightarrow> count (buf' ! nat n) \<le> dup)
         \<and> (dup \<le> count (buf' ! nat n)
            \<or> (\<forall>f\<in>set buf'. \<not> dup < count f
                  \<and> \<not> (priority f < priority (buf' ! nat n) \<and> 1 < count f)))"
    unfolding realloc_pass_None .
next
  fix j
  assume "dup = 2 \<and> count (buf ! nat n) = 1
        \<and> (\<forall>m<length buf. m \<noteq> nat n \<longrightarrow> count (buf ! m) = 2)"
    and "first_from_tail (\<lambda>f. priority f < priority (buf ! nat n)) buf j"
  with reallocate_scenario_B [OF assms, of j]
  show "reallocate dup n buf
             = Inr (buf[j := (buf ! j)\<lparr>count := 1\<rparr>, nat n := (buf ! nat n)\<lparr>count := 2\<rparr>])"
    by simp
qed

text \<open>
  Scenario B on a window of four records: the counts 2, 1, 2, 2 become 2, 2, 1, 2.
\<close>

theorem slot_reallocation_witness:
  "(0::int) \<le> 1 \<and> (1::int) < int (length scenario_B)
   \<and> map count scenario_B = [2, 1, 2, 2]
   \<and> map priority scenario_B = [5, 3, 1, 4]
   \<and> first_from_tail (\<lambda>f. priority f < priority (scenario_B ! nat 1)) scenario_B 2
   \<and> map_sum id (map count) (reallocate 2 1 scenario_B) = Inr [2, 2, 1, 2]"
proof -
  have r: "(0::int) \<le> 1" "(1::int) < int (length scenario_B)"
    by (simp_all add: scenario_B_def)
  have target: "count (scenario_B ! nat 1) = 1"
    by (simp add: scenario_B_def example_frame_def)
  have others: "\<forall>m<length scenario_B. m \<noteq> nat 1 \<longrightarrow> count (scenario_B ! m) = 2"
    by (auto simp: scenario_B_def example_frame_def less_Suc_eq eval_nat_numeral)
  have donor: "first_from_tail (\<lambda>f. priority f < priority (scenario_B ! nat 1)) scenario_B 2"
    by (auto simp: first_from_tail_def scenario_B_def example_frame_def less_Suc_eq
        eval_nat_numeral)
  from slot_reallocation [OF r, of 2] target others donor
  have "reallocate 2 1 scenario_B
      = Inr (scenario_B[2 := (scenario_B ! 2)\<lparr>count := 1\<rparr>,
                        nat 1 := (scenario_B ! nat 1)\<lparr>count := 2\<rparr>])"
    by blast
  with donor show ?thesis
    by (simp add: scenario_B_def example_frame_def)
qed

section \<open>C2: the window invariant\<close>

lemma window_ok_start:
  "0 < buffer_size cfg \<Longrightarrow> start cv th src = (True, s) \<Longrightarrow> window_ok cfg s"
  by (auto simp: start_def readFrame_def initial_def newFrame_def window_ok_def Let_def
      split: list.splits)

lemma length_inc_back: "buf \<noteq> [] \<Longrightarrow> length (inc_back buf) = length buf"
  by (simp add: inc_back_def)

lemma counts_inc_back:
  assumes "buf \<noteq> []" "\<forall>f\<in>set buf. 1 \<le> count f"
  shows "\<forall>f\<in>set (inc_back buf). 1 \<le> count f"
proof
  fix f assume "f \<in> set (inc_back buf)"
  then have "f \<in> set (butlast buf) \<or> f = (last buf)\<lparr>count := count (last buf) + 1\<rparr>"
    by (auto simp: inc_back_def)
  then show "1 \<le> count f"
  proof
    assume "f \<in> set (butlast buf)"
    then have "f \<in> set buf" by (rule in_set_butlastD)
    with assms(2) show ?thesis by simp
  next
    assume f: "f = (last buf)\<lparr>count := count (last buf) + 1\<rparr>"
    from assms have "1 \<le> count (last buf)" by simp
    with f show ?thesis by simp
  qed
qed

lemma fill_body_buffer:
  "buffer (fill_body cv cfg s) = buffer s
   \<or> buffer (fill_body cv cfg s) = inc_back (buffer s)
   \<or> (size_less (length (buffer s)) (buffer_size cfg)
      \<and> (\<exists>fr. count fr = 1 \<and> buffer (fill_body cv cfg s) = buffer s @ [fr]))"
  by (auto simp: fill_body_def readFrame_def matchFrames_def Let_def newFrame_def
      split: list.splits)

lemma window_ok_fill_body:
  assumes "0 < buffer_size cfg" "window_ok cfg s"
  shows "window_ok cfg (fill_body cv cfg s)"
proof -
  from assms(2) have ne: "buffer s \<noteq> []" and len: "int (length (buffer s)) \<le> buffer_size cfg"
    and c: "\<forall>f\<in>set (buffer s). 1 \<le> count f"
    by (simp_all add: window_ok_def)
  from fill_body_buffer [of cv cfg s] show ?thesis
  proof (elim disjE conjE exE)
    assume "buffer (fill_body cv cfg s) = buffer s"
    with assms(2) show ?thesis by (simp add: window_ok_def)
  next
    assume "buffer (fill_body cv cfg s) = inc_back (buffer s)"
    with ne len counts_inc_back [OF ne c] show ?thesis
      by (simp add: window_ok_def length_inc_back) (simp add: inc_back_def)
  next
    fix fr
    assume "size_less (length (buffer s)) (buffer_size cfg)" "count fr = 1"
      "buffer (fill_body cv cfg s) = buffer s @ [fr]"
    with c assms(1) show ?thesis
      by (simp add: window_ok_def size_less_def)
  qed
qed

lemma window_ok_update_drift: "window_ok cfg s \<Longrightarrow> window_ok cfg (update_drift cfg s)"
  by (simp add: window_ok_def update_drift_def Let_def)

lemma counts_transfer:
  assumes "i < length buf" "j < length buf" "j \<noteq> i"
    and "\<forall>f\<in>set buf. 1 \<le> count f" and "1 < count (buf ! j)"
  shows "\<forall>f\<in>set (transfer j i buf). 1 \<le> count f"
proof
  fix f assume "f \<in> set (transfer j i buf)"
  then obtain m where m: "m < length buf" "f = transfer j i buf ! m"
    by (auto simp: in_set_conv_nth length_transfer)
  from assms(4) m(1) have "1 \<le> count (buf ! m)" by simp
  with assms(1-3,5) m show "1 \<le> count f"
    by (cases "m = j"; cases "m = i") (simp_all add: transfer_nth)
qed

lemma counts_realloc_pass:
  assumes "1 \<le> dup" "i < length buf" "count (buf ! i) < dup"
    and "\<forall>f\<in>set buf. 1 \<le> count f" and "realloc_pass dup i buf = Some buf'"
  shows "length buf' = length buf \<and> (\<forall>f\<in>set buf'. 1 \<le> count f)"
proof -
  from realloc_pass_cases [OF assms(5,3)] obtain j where
    j: "j < length buf" "j \<noteq> i" "buf' = transfer j i buf"
       "dup < count (buf ! j) \<or> 1 < count (buf ! j)"
    by blast
  from j(4) assms(1) have "1 < count (buf ! j)" by auto
  from counts_transfer [OF assms(2) j(1,2) assms(4) this] j(3) show ?thesis
    by (simp add: length_transfer)
qed

lemma counts_reallocate:
  "1 \<le> dup \<Longrightarrow> \<forall>f\<in>set buf. 1 \<le> count f \<Longrightarrow> reallocate dup n buf = Inr buf' \<Longrightarrow>
     length buf' = length buf \<and> (\<forall>f\<in>set buf'. 1 \<le> count f)"
proof (induction dup n buf arbitrary: buf' rule: reallocate.induct)
  case (1 dup n buf)
  from "1.prems"(3) have range: "\<not> (n < 0 \<or> int (length buf) \<le> n)"
    by (subst (asm) reallocate.simps) (simp split: if_splits)
  then have r: "0 \<le> n" "n < int (length buf)" by simp_all
  then have i: "nat n < length buf" by linarith
  show ?case
  proof (cases "count (buf ! nat n) < dup")
    case False
    with r "1.prems" show ?thesis by (simp add: reallocate_unfold)
  next
    case low: True
    show ?thesis
    proof (cases "realloc_pass dup (nat n) buf")
      case None
      with low r "1.prems" show ?thesis by (simp add: reallocate_unfold)
    next
      case (Some x)
      from counts_realloc_pass [OF "1.prems"(1) i low "1.prems"(2) Some]
      have x: "length x = length buf" "\<forall>f\<in>set x. 1 \<le> count f" by simp_all
      from "1.prems"(3) low r Some have "reallocate dup n x = Inr buf'"
        by (simp add: reallocate_unfold)
      from "1.IH" [OF range low Some "1.prems"(1) x(2) this] x(1) show ?thesis by simp
    qed
  qed
qed

lemma counts_drift_cut:
  "1 \<le> dup \<Longrightarrow> \<forall>f\<in>set buf. 1 \<le> count f \<Longrightarrow>
     \<forall>f\<in>set (fst (drift_cut bound dup buf d)). 1 \<le> count f"
proof (induction buf arbitrary: d)
  case Nil
  then show ?case by simp
next
  case (Cons f fs)
  show ?case
  proof (cases "bound \<le> d")
    case False
    with Cons.prems show ?thesis by simp
  next
    case True
    obtain c1 d1 where cf: "cut_frame bound dup (count f) d = (c1, d1)" by force
    obtain fs2 d2 where dc: "drift_cut bound dup fs d1 = (fs2, d2)" by force
    from cut_frame_delta [OF True cf] Cons.prems have "1 \<le> c1"
      by (cases "count f \<le> dup") auto
    moreover from Cons.IH [of d1] Cons.prems dc have "\<forall>f\<in>set fs2. 1 \<le> count f" by simp
    ultimately show ?thesis using True cf dc by simp
  qed
qed

lemma add_frame_ge: "c \<le> fst (add_frame bound dup c d)"
proof (induction bound dup c d rule: add_frame.induct)
  case (1 bound dup c d)
  show ?case
  proof (cases "c < dup")
    case False
    then show ?thesis by (subst add_frame.simps) simp
  next
    case True
    show ?thesis
    proof (cases "abs (d + 1) < bound")
      case stop: True
      with True show ?thesis by (subst add_frame.simps) simp
    next
      case False
      from "1.IH" [OF True False] True False show ?thesis
        by (subst add_frame.simps) simp
    qed
  qed
qed

lemma counts_drift_add:
  "\<forall>f\<in>set buf. 1 \<le> count f \<Longrightarrow>
     \<forall>f\<in>set (fst (drift_add bound dup buf d)). 1 \<le> count f"
proof (induction buf arbitrary: d)
  case Nil
  then show ?case by simp
next
  case (Cons f fs)
  show ?case
  proof (cases "bound \<le> abs d")
    case False
    with Cons.prems show ?thesis by simp
  next
    case True
    obtain c1 d1 where cf: "add_frame bound dup (count f) d = (c1, d1)" by force
    obtain fs2 d2 where dc: "drift_add bound dup fs d1 = (fs2, d2)" by force
    from add_frame_ge [of "count f" bound dup d] cf Cons.prems have "1 \<le> c1" by simp
    moreover from Cons.IH [of d1] Cons.prems dc have "\<forall>f\<in>set fs2. 1 \<le> count f" by simp
    ultimately show ?thesis using True cf dc by simp
  qed
qed

lemma drift_add_length: "length (fst (drift_add bound dup buf d)) = length buf"
  by (induction buf arbitrary: d) (simp_all add: split_beta Let_def)

lemma window_ok_correcting:
  assumes "0 < duplicate_count cfg" "window_ok cfg s" "correcting cfg s = Inr s'"
  shows "window_ok cfg s'"
proof -
  from assms(2) have ne: "buffer s \<noteq> []" and len: "int (length (buffer s)) \<le> buffer_size cfg"
    and c: "\<forall>f\<in>set (buffer s). 1 \<le> count f"
    by (simp_all add: window_ok_def)
  from assms(1) have dup: "1 \<le> duplicate_count cfg" by simp
  have "length (buffer s') = length (buffer s) \<and> (\<forall>f\<in>set (buffer s'). 1 \<le> count f)"
  proof (cases "abs (DRIFT s) < adjustment_bound cfg")
    case True
    with assms(3) obtain buf' where
      "reallocate (duplicate_count cfg) (buffer_size cfg sdiv 2) (buffer s) = Inr buf'"
      "s' = s\<lparr>buffer := buf'\<rparr>"
      by (auto simp: correcting_def split: sum.splits)
    with counts_reallocate [OF dup c this(1)] show ?thesis by simp
  next
    case out: False
    show ?thesis
    proof (cases "adjustment_bound cfg \<le> DRIFT s")
      case True
      with out assms(3) have "buffer s'
          = fst (drift_cut (adjustment_bound cfg) (duplicate_count cfg) (buffer s) (DRIFT s))"
        by (auto simp: correcting_def split_beta)
      with counts_drift_cut [OF dup c] show ?thesis by (simp add: drift_cut_length)
    next
      case False
      from out False have "correcting cfg s = Inr (s\<lparr>buffer :=
          fst (drift_add (adjustment_bound cfg) (duplicate_count cfg) (buffer s) (DRIFT s)),
          DRIFT :=
          snd (drift_add (adjustment_bound cfg) (duplicate_count cfg) (buffer s) (DRIFT s))\<rparr>)"
        by (simp only: correcting_def if_False Let_def split_beta)
      with assms(3) have "buffer s'
          = fst (drift_add (adjustment_bound cfg) (duplicate_count cfg) (buffer s) (DRIFT s))"
        by auto
      with counts_drift_add [OF c] show ?thesis by (simp add: drift_add_length)
    qed
  qed
  with ne len show ?thesis by (auto simp: window_ok_def)
qed

lemma window_ok_evict_admit:
  assumes "window_ok cfg s"
  shows "window_ok cfg (evict_admit s)"
proof -
  from assms have ne: "buffer s \<noteq> []" and len: "int (length (buffer s)) \<le> buffer_size cfg"
    and c: "\<forall>f\<in>set (buffer s). 1 \<le> count f"
    by (simp_all add: window_ok_def)
  from c have "\<forall>f\<in>set (tl (buffer s)). 1 \<le> count f"
    by (meson list.set_sel(2) ne)
  with ne len show ?thesis
    by (simp add: window_ok_def evict_admit_def Let_def writeFrames_eq newFrame_def)
qed

text \<open>
  The window invariant for a positive \<open>buffer_size\<close> and a positive \<open>duplicate_count\<close>:
  every state a run passes between its steps (after an admission, a reallocation
  transfer, a drift measurement, a correction, an eviction with its admission) holds a
  non-empty window of at most \<open>buffer_size\<close> records, each with a count of at least 1.
  The options 0, which the option parser lets through, are treated in the section on the
  truncated options.
\<close>

lemma window_invariant:
  assumes "0 < buffer_size cfg" and "0 < duplicate_count cfg" and "reachable cv cfg s"
  shows "buffer s \<noteq> [] \<and> int (length (buffer s)) \<le> buffer_size cfg
         \<and> (\<forall>f\<in>set (buffer s). 1 \<le> count f)"
proof -
  from assms(3) have "window_ok cfg s"
  proof (induction rule: reachable.induct)
    case (first_record th src s)
    with assms(1) show ?case by (rule window_ok_start)
  next
    case (admission s)
    with assms(1) show ?case by (simp add: window_ok_fill_body)
  next
    case (drift_measured s)
    then show ?case by (simp add: window_ok_update_drift)
  next
    case (transferred s buf')
    from transferred.IH have c: "\<forall>f\<in>set (buffer s). 1 \<le> count f"
      and b: "buffer s \<noteq> []" "int (length (buffer s)) \<le> buffer_size cfg"
      by (simp_all add: window_ok_def)
    from assms(2) have dup: "1 \<le> duplicate_count cfg" by simp
    from transferred.hyps(4,5) have i: "nat (buffer_size cfg sdiv 2) < length (buffer s)"
      by linarith
    from counts_realloc_pass [OF dup i transferred.hyps(6) c transferred.hyps(7)] b
    show ?case by (auto simp: window_ok_def)
  next
    case (corrected s s')
    with assms(2) show ?case by (simp add: window_ok_correcting)
  next
    case (evicted s)
    then show ?case by (simp add: window_ok_evict_admit)
  qed
  then show ?thesis by (simp add: window_ok_def)
qed

section \<open>The loops stay inside the states of a run\<close>

lemma fill_reachable:
  "reachable cv cfg s \<Longrightarrow> reachable cv cfg (fill cv cfg s) \<and> full (fill cv cfg s)"
proof (induction cv cfg s rule: fill.induct)
  case (1 cv cfg s)
  show ?case
  proof (cases "full s")
    case True
    with "1.prems" show ?thesis by (subst (1 2) fill.simps) simp
  next
    case False
    from "1.prems" False have "reachable cv cfg (fill_body cv cfg s)" by (rule admission)
    from "1.IH" [OF False this] False show ?thesis by (subst (1 2) fill.simps) simp
  qed
qed

lemma full_update_drift: "full (update_drift cfg s) = full s"
  by (simp add: update_drift_def Let_def)

lemma correcting_frame:
  assumes "correcting cfg s = Inr s'"
  shows "full s' = full s" "THRESH s' = THRESH s" "tempframe s' = tempframe s"
    "compframe s' = compframe s" "stdev s' = stdev s" "READ_INDEX s' = READ_INDEX s"
  using assms by (auto simp: correcting_def split_beta split: if_splits sum.splits)

lemma cycle_reachable:
  assumes "reachable cv cfg s" "cycle cv cfg s = Inr s'"
  shows "reachable cv cfg s'"
proof -
  from assms(2) obtain s3 where c: "correcting cfg (update_drift cfg (fill cv cfg s)) = Inr s3"
    and s': "s' = evict_admit s3"
    by (auto simp: cycle_def Let_def split: sum.splits)
  from fill_reachable [OF assms(1)] have f: "reachable cv cfg (fill cv cfg s)" "full (fill cv cfg s)"
    by simp_all
  then have u: "reachable cv cfg (update_drift cfg (fill cv cfg s))" by (rule drift_measured)
  from f(2) have fu: "full (update_drift cfg (fill cv cfg s))" by (simp add: full_update_drift)
  from u fu c have r3: "reachable cv cfg s3" by (rule corrected)
  from correcting_frame(1) [OF c] fu have "full s3" by simp
  with r3 show ?thesis unfolding s' by (rule evicted)
qed

lemma main_loop_reachable:
  "reachable cv cfg s \<Longrightarrow> main_loop cv cfg s = Inr s' \<Longrightarrow> reachable cv cfg s'"
proof (induction cv cfg s rule: main_loop.induct)
  case (1 cv cfg s)
  show ?case
  proof (cases "FINISHED s")
    case True
    with "1.prems" show ?thesis by (subst (asm) main_loop.simps) simp
  next
    case False
    with "1.prems"(2) obtain s1 where c: "cycle cv cfg s = Inr s1"
      and m: "main_loop cv cfg s1 = Inr s'"
      by (subst (asm) main_loop.simps) (auto split: sum.splits)
    from cycle_reachable [OF "1.prems"(1) c] have "reachable cv cfg s1" .
    from "1.IH" [OF False c this m] show ?thesis .
  qed
qed

lemma last_inc_back: "last (inc_back buf) = (last buf)\<lparr>count := count (last buf) + 1\<rparr>"
  by (simp add: inc_back_def)

lemma relaxed_fill_body:
  assumes "2 \<le> duplicate_count cfg" "relaxed_when_reached cfg s" "\<not> full s"
  shows "relaxed_when_reached cfg (fill_body cv cfg s)"
  using assms
  by (auto simp: relaxed_when_reached_def fill_body_def readFrame_def matchFrames_def Let_def
      last_inc_back makeRelaxed_def makeStrict_def newFrame_def split: list.splits)

lemma relaxed_reachable:
  assumes "2 \<le> duplicate_count cfg" "reachable cv cfg s"
  shows "relaxed_when_reached cfg s"
  using assms(2)
proof (induction rule: reachable.induct)
  case (first_record th src s)
  with assms(1) show ?case
    by (auto simp: relaxed_when_reached_def start_def readFrame_def initial_def newFrame_def
        Let_def split: list.splits)
next
  case (admission s)
  with assms(1) show ?case by (simp add: relaxed_fill_body)
next
  case (drift_measured s)
  then show ?case by (simp add: relaxed_when_reached_def full_update_drift)
next
  case (transferred s buf')
  then show ?case by (simp add: relaxed_when_reached_def)
next
  case (corrected s s')
  from correcting_frame(1) [OF corrected.hyps(3)] corrected.hyps(2) show ?case
    by (simp add: relaxed_when_reached_def)
next
  case (evicted s)
  with assms(1) show ?case
    by (simp add: relaxed_when_reached_def evict_admit_def Let_def writeFrames_eq newFrame_def)
qed

lemma first_state_reachable:
  "src \<noteq> [] \<Longrightarrow> reachable example_cv cfg (first_state src)"
proof -
  assume "src \<noteq> []"
  then have "start example_cv default_THRESH src = (True, first_state src)"
    by (cases src) (simp_all add: first_state_def start_def readFrame_def initial_def Let_def)
  then show ?thesis by (rule first_record)
qed

lemma first_state_eq:
  "first_state (x # xs) =
     \<lparr>CAP = xs, VIDEO = [], THRESH = \<lparr>value' = 0.5, strict = 0.5, relaxed = 0.25\<rparr>,
      WRITE_INDEX = 0, READ_INDEX = 0, FINISHED = False, DRIFT = 0,
      buffer = [\<lparr>data = Img x, compF = Img x, count = 1, priority = 0, index = 0\<rparr>],
      tempframe = Img x, compframe = Img x, stdev = 0, full = False, drift_update = 0\<rparr>"
  by (simp add: first_state_def start_def readFrame_def initial_def newFrame_def Let_def
      default_THRESH_def setup_THRESH_def example_cv_def)

lemma first_cycle:
  "cycle example_cv (small_config 3) (first_state [1, 1, 2, 3, 3]) =
     Inr \<lparr>CAP = [], VIDEO = [Img 1], THRESH = \<lparr>value' = 0.25, strict = 0.5, relaxed = 0.25\<rparr>,
      WRITE_INDEX = 1, READ_INDEX = 5, FINISHED = True, DRIFT = 0,
      buffer = [\<lparr>data = Img 2, compF = Img 2, count = 2, priority = 1, index = 2\<rparr>,
                \<lparr>data = Img 3, compF = Img 3, count = 2, priority = 1, index = 3\<rparr>,
                \<lparr>data = Empty, compF = Img 3, count = 1, priority = 0, index = 5\<rparr>],
      tempframe = Empty, compframe = Img 3, stdev = 0, full = False, drift_update = 3\<rparr>"
  by (simp add: first_state_eq small_config_def cycle_def fill.simps fill_body_def
      readFrame_def matchFrames_def example_cv_def inc_back_def makeRelaxed_def makeStrict_def
      newFrame_def size_less_def update_drift_def correcting_def reallocate.simps
      realloc_pass_def transfer_def signed_divide_int_def evict_admit_def writeFrames_eq
      Let_def eval_nat_numeral)

text \<open>
  The state after the first iteration of the main loop on the frames 1, 1, 2, 3, 3 with a
  buffer of 3: reachable, with the counts 2, 2, 1.
\<close>

lemma window_invariant_witness:
  "0 < buffer_size (small_config 3) \<and> 0 < duplicate_count (small_config 3)
   \<and> reachable example_cv (small_config 3) after_first_cycle
   \<and> map count (buffer after_first_cycle) = [2, 2, 1]
   \<and> int (length (buffer after_first_cycle)) \<le> buffer_size (small_config 3)
   \<and> list_all (\<lambda>f. 1 \<le> count f) (buffer after_first_cycle)"
proof -
  have p: "0 < buffer_size (small_config 3)" "0 < duplicate_count (small_config 3)"
    by (simp_all add: small_config_def)
  have r0: "reachable example_cv (small_config 3) (first_state [1, 1, 2, 3, 3])"
    by (rule first_state_reachable) simp
  have c: "cycle example_cv (small_config 3) (first_state [1, 1, 2, 3, 3]) = Inr after_first_cycle"
    by (simp only: after_first_cycle_def first_cycle sum.sel)
  from cycle_reachable [OF r0 c] have r: "reachable example_cv (small_config 3) after_first_cycle" .
  have e: "map count (buffer after_first_cycle) = [2, 2, 1]"
    unfolding after_first_cycle_def first_cycle by simp
  from window_invariant [OF p r] r p e show ?thesis
    by (simp add: list_all_iff)
qed

section \<open>C2 and C5: options truncated to zero\<close>

text \<open>
  The parser tests the value for positivity as a \<open>double\<close> and truncates it afterwards:
  0.5 passes the test and is stored as 0.
\<close>

lemma zero_size_config_eq:
  "zero_size_config = \<lparr>buffer_size = 0, adjustment_bound = 5, duplicate_count = 2\<rparr>"
  by (simp add: zero_size_config_def set_option_def default_config_def)

lemma zero_count_config_eq:
  "zero_count_config = \<lparr>buffer_size = 7, adjustment_bound = 0, duplicate_count = 0\<rparr>"
  by (simp add: zero_count_config_def set_option_def default_config_def)

lemma zero_bound_config_eq:
  "zero_bound_config = \<lparr>buffer_size = 7, adjustment_bound = 0, duplicate_count = 2\<rparr>"
  by (simp add: zero_bound_config_def set_option_def default_config_def)

lemma measured_reachable:
  assumes "src \<noteq> []"
  shows "reachable example_cv cfg (update_drift cfg (fill example_cv cfg (first_state src)))"
    and "full (update_drift cfg (fill example_cv cfg (first_state src)))"
proof -
  from fill_reachable [OF first_state_reachable [OF assms], of cfg]
  have f: "reachable example_cv cfg (fill example_cv cfg (first_state src))"
    "full (fill example_cv cfg (first_state src))"
    by simp_all
  then show "reachable example_cv cfg (update_drift cfg (fill example_cv cfg (first_state src)))"
    by (rule drift_measured)
  from f(2) show "full (update_drift cfg (fill example_cv cfg (first_state src)))"
    by (simp add: full_update_drift)
qed

lemma zero_count_measured_eq:
  "zero_count_measured =
     \<lparr>CAP = [], VIDEO = [], THRESH = \<lparr>value' = 0.5, strict = 0.5, relaxed = 0.25\<rparr>,
      WRITE_INDEX = 0, READ_INDEX = 2, FINISHED = True, DRIFT = 0,
      buffer = [\<lparr>data = Img 1, compF = Img 1, count = 1, priority = 0, index = 0\<rparr>,
                \<lparr>data = Img 2, compF = Img 2, count = 1, priority = 1, index = 1\<rparr>],
      tempframe = Empty, compframe = Img 2, stdev = 1, full = True, drift_update = 7\<rparr>"
  by (simp add: zero_count_measured_def first_state_eq zero_count_config_eq fill.simps
      fill_body_def readFrame_def matchFrames_def example_cv_def inc_back_def makeRelaxed_def
      makeStrict_def newFrame_def size_less_def update_drift_def Let_def)

lemma zero_count_corrected:
  "correcting zero_count_config zero_count_measured =
     Inr (zero_count_measured\<lparr>buffer :=
            [\<lparr>data = Img 1, compF = Img 1, count = 0, priority = 0, index = 0\<rparr>,
             \<lparr>data = Img 2, compF = Img 2, count = 1, priority = 1, index = 1\<rparr>],
          DRIFT := - 1\<rparr>)"
  by (simp add: zero_count_measured_eq zero_count_config_eq correcting_def cut_frame.simps)

lemma zero_count_output:
  "run_output example_cv zero_count_config default_THRESH [1, 2] = Inr (0, [Img 2, Empty])"
  by (simp add: run_output_def main_def start_def initial_def main_loop.simps cycle_def
      default_THRESH_def setup_THRESH_def evict_admit_def writeFrames_eq
      zero_count_config_eq fill.simps fill_body_def
      readFrame_def matchFrames_def example_cv_def inc_back_def makeRelaxed_def makeStrict_def
      newFrame_def size_less_def update_drift_def Let_def correcting_def cut_frame.simps)

lemma zero_bound_measured_eq:
  "zero_bound_measured =
     \<lparr>CAP = [], VIDEO = [], THRESH = \<lparr>value' = 0.5, strict = 0.5, relaxed = 0.25\<rparr>,
      WRITE_INDEX = 0, READ_INDEX = 5, FINISHED = True, DRIFT = 0,
      buffer = [\<lparr>data = Img 1, compF = Img 1, count = 3, priority = 0, index = 0\<rparr>,
                \<lparr>data = Img 2, compF = Img 2, count = 1, priority = 1, index = 3\<rparr>,
                \<lparr>data = Img 3, compF = Img 3, count = 1, priority = 1, index = 4\<rparr>],
      tempframe = Empty, compframe = Img 3, stdev = 1, full = True, drift_update = 7\<rparr>"
  by (simp add: zero_bound_measured_def first_state_eq zero_bound_config_eq fill.simps
      fill_body_def readFrame_def matchFrames_def example_cv_def inc_back_def makeRelaxed_def
      makeStrict_def newFrame_def size_less_def update_drift_def Let_def)

lemma zero_bound_corrected:
  "correcting zero_bound_config zero_bound_measured =
     Inr (zero_bound_measured\<lparr>buffer :=
            [\<lparr>data = Img 1, compF = Img 1, count = 2, priority = 0, index = 0\<rparr>,
             \<lparr>data = Img 2, compF = Img 2, count = 1, priority = 1, index = 3\<rparr>,
             \<lparr>data = Img 3, compF = Img 3, count = 1, priority = 1, index = 4\<rparr>],
          DRIFT := - 1\<rparr>)"
  by (simp add: zero_bound_measured_eq zero_bound_config_eq correcting_def cut_frame.simps)

lemma zero_bound_output:
  "run_output example_cv zero_bound_config default_THRESH [1, 1, 1, 2, 3]
     = Inr (0, [Img 1, Img 1, Img 2, Img 3, Empty])"
  by (simp add: run_output_def main_def start_def initial_def main_loop.simps cycle_def
      default_THRESH_def setup_THRESH_def evict_admit_def writeFrames_eq
      zero_bound_config_eq fill.simps fill_body_def
      readFrame_def matchFrames_def example_cv_def inc_back_def makeRelaxed_def makeStrict_def
      newFrame_def size_less_def update_drift_def Let_def correcting_def cut_frame.simps
      eval_nat_numeral)

text \<open>
  C2 holds for positive options (\<open>window_invariant\<close>) and does not hold of the program
  as a whole, which takes options that end up as 0. With \<open>-buffer_size 0.5\<close> the buffer
  size is 0 and the first record already makes a window of one record. With
  \<open>-adjustment_bound 0.5 -duplicate_count 0.5\<close> and the frames 1, 2 the window is
  filled with the counts 1, 1, the drift is 0, which is not below the bound 0, and the
  drift correction takes the count of the first record to 0: the eviction writes no copy
  of frame 1, and the output of the run is frame 2 and the empty image of the failed
  last read.
\<close>

theorem window_invariant_fails_for_truncated_options:
  "zero_size_config = \<lparr>buffer_size = 0, adjustment_bound = 5, duplicate_count = 2\<rparr>
   \<and> reachable example_cv zero_size_config (first_state [1, 2])
   \<and> length (buffer (first_state [1, 2])) = 1
   \<and> \<not> int (length (buffer (first_state [1, 2]))) \<le> buffer_size zero_size_config
   \<and> zero_count_config = \<lparr>buffer_size = 7, adjustment_bound = 0, duplicate_count = 0\<rparr>
   \<and> reachable example_cv zero_count_config zero_count_measured
   \<and> map count (buffer zero_count_measured) = [1, 1]
   \<and> reachable example_cv zero_count_config
        (projr (correcting zero_count_config zero_count_measured))
   \<and> map count (buffer (projr (correcting zero_count_config zero_count_measured))) = [0, 1]
   \<and> run_output example_cv zero_count_config default_THRESH [1, 2] = Inr (0, [Img 2, Empty])"
proof -
  have r0: "reachable example_cv zero_size_config (first_state [1, 2])"
    by (rule first_state_reachable) simp
  have l: "length (buffer (first_state [1, 2])) = 1"
    by (simp add: first_state_eq)
  have n: "\<not> int (length (buffer (first_state [1, 2]))) \<le> buffer_size zero_size_config"
    by (simp add: first_state_eq zero_size_config_eq)
  have m: "reachable example_cv zero_count_config zero_count_measured"
    "full zero_count_measured"
    unfolding zero_count_measured_def by (rule measured_reachable, simp)+
  have e: "map count (buffer zero_count_measured) = [1, 1]"
    by (simp add: zero_count_measured_eq)
  from m zero_count_corrected
  have "reachable example_cv zero_count_config
      (zero_count_measured\<lparr>buffer :=
            [\<lparr>data = Img 1, compF = Img 1, count = 0, priority = 0, index = 0\<rparr>,
             \<lparr>data = Img 2, compF = Img 2, count = 1, priority = 1, index = 1\<rparr>],
          DRIFT := - 1\<rparr>)"
    by (rule corrected)
  then have c: "reachable example_cv zero_count_config
      (projr (correcting zero_count_config zero_count_measured))"
    by (simp only: zero_count_corrected sum.sel)
  have d: "map count (buffer (projr (correcting zero_count_config zero_count_measured)))
      = [0, 1]"
    by (simp add: zero_count_corrected)
  show ?thesis
    by (intro conjI zero_size_config_eq r0 l n zero_count_config_eq m(1) e c d
        zero_count_output)
qed

text \<open>
  C5 holds for a positive adjustment bound (\<open>drift_bounded_after_correcting\<close>) and does
  not hold of the program as a whole, which takes \<open>-adjustment_bound 0.5\<close> and runs
  with the bound 0. On the frames 1, 1, 1, 2, 3 the window is filled with the counts
  3, 1, 1 and the drift is 0. The correction cuts one copy of the first record, stops at
  the drift -1 without looking at the other records, and leaves an absolute drift of 1,
  not below the bound; the run writes two copies of frame 1 for the three of the source.
\<close>

theorem drift_bound_fails_for_truncated_bound:
  "zero_bound_config = \<lparr>buffer_size = 7, adjustment_bound = 0, duplicate_count = 2\<rparr>
   \<and> reachable example_cv zero_bound_config zero_bound_measured
   \<and> map count (buffer zero_bound_measured) = [3, 1, 1]
   \<and> DRIFT zero_bound_measured = 0
   \<and> map_sum id (\<lambda>s. (map count (buffer s), DRIFT s))
        (correcting zero_bound_config zero_bound_measured) = Inr ([2, 1, 1], - 1)
   \<and> \<not> abs (- 1 :: int) < adjustment_bound zero_bound_config
   \<and> run_output example_cv zero_bound_config default_THRESH [1, 1, 1, 2, 3]
       = Inr (0, [Img 1, Img 1, Img 2, Img 3, Empty])"
proof -
  have m: "reachable example_cv zero_bound_config zero_bound_measured"
    unfolding zero_bound_measured_def by (rule measured_reachable) simp
  have e: "map count (buffer zero_bound_measured) = [3, 1, 1]" "DRIFT zero_bound_measured = 0"
    by (simp_all add: zero_bound_measured_eq)
  have c: "map_sum id (\<lambda>s. (map count (buffer s), DRIFT s))
        (correcting zero_bound_config zero_bound_measured) = Inr ([2, 1, 1], - 1)"
    by (simp add: zero_bound_corrected)
  have n: "\<not> abs (- 1 :: int) < adjustment_bound zero_bound_config"
    by (simp add: zero_bound_config_eq)
  show ?thesis
    by (intro conjI zero_bound_config_eq m e c n zero_bound_output)
qed

section \<open>C6: threshold hysteresis\<close>

lemma fill_body_match:
  assumes "CAP s = x # xs"
    and "absdiff_std cv (compF (last (buffer s))) (Img (gray_resize cv x)) < value' (THRESH s)"
  shows "buffer (fill_body cv cfg s) = inc_back (buffer s)"
    and "full (fill_body cv cfg s) = full s"
    and "THRESH (fill_body cv cfg s)
          = (if count (last (buffer s)) + 1 = duplicate_count cfg
             then makeRelaxed (THRESH s) else THRESH s)"
  using assms
  by (simp_all add: fill_body_def readFrame_def matchFrames_def Let_def last_inc_back)

lemma fill_body_mismatch:
  assumes "CAP s = x # xs"
    and "\<not> absdiff_std cv (compF (last (buffer s))) (Img (gray_resize cv x)) < value' (THRESH s)"
  shows "THRESH (fill_body cv cfg s) = makeStrict (THRESH s)"
    and "tempframe (fill_body cv cfg s) = Img x"
    and "size_less (length (buffer s)) (buffer_size cfg) \<Longrightarrow>
           full (fill_body cv cfg s) = full s
           \<and> buffer (fill_body cv cfg s) = buffer s @
                [\<lparr>data = Img x, compF = Img (gray_resize cv x), count = 1,
                  priority = absdiff_std cv (compF (last (buffer s))) (Img (gray_resize cv x)),
                  index = READ_INDEX s + 1\<rparr>]"
    and "\<not> size_less (length (buffer s)) (buffer_size cfg) \<Longrightarrow>
           full (fill_body cv cfg s) \<and> buffer (fill_body cv cfg s) = buffer s"
  using assms
  by (simp_all add: fill_body_def readFrame_def matchFrames_def Let_def newFrame_def)

lemma update_drift_frame:
  "THRESH (update_drift cfg s) = THRESH s" "tempframe (update_drift cfg s) = tempframe s"
  by (simp_all add: update_drift_def Let_def)

lemma evict_admit_opens:
  "THRESH (evict_admit s) = THRESH s" "\<not> full (evict_admit s)"
  "last (buffer (evict_admit s))
     = \<lparr>data = tempframe s, compF = compframe s, count = 1, priority = stdev s,
        index = READ_INDEX s\<rparr>"
  by (simp_all add: evict_admit_def Let_def writeFrames_eq newFrame_def)

lemma reallocate_length:
  "reallocate dup n buf = Inr buf' \<Longrightarrow> length buf' = length buf"
proof -
  assume r: "reallocate dup n buf = Inr buf'"
  then have "\<not> (n < 0 \<or> int (length buf) \<le> n)"
    by (subst (asm) reallocate.simps) (simp split: if_splits)
  then have range: "0 \<le> n" "n < int (length buf)" by simp_all
  from reallocate_result [OF range, of dup] obtain b where
    "reallocate dup n buf = Inr b" "length b = length buf" by blast
  with r show ?thesis by simp
qed

lemma correcting_length:
  assumes "correcting cfg s = Inr s'"
  shows "length (buffer s') = length (buffer s)"
proof (cases "abs (DRIFT s) < adjustment_bound cfg")
  case True
  with assms obtain buf' where
    "reallocate (duplicate_count cfg) (buffer_size cfg sdiv 2) (buffer s) = Inr buf'"
    "s' = s\<lparr>buffer := buf'\<rparr>"
    by (auto simp: correcting_def split: sum.splits)
  then show ?thesis by (simp add: reallocate_length)
next
  case out: False
  show ?thesis
  proof (cases "adjustment_bound cfg \<le> DRIFT s")
    case True
    with out assms have "buffer s'
        = fst (drift_cut (adjustment_bound cfg) (duplicate_count cfg) (buffer s) (DRIFT s))"
      by (auto simp: correcting_def split_beta)
    then show ?thesis by (simp add: drift_cut_length)
  next
    case False
    from out False have "correcting cfg s = Inr (s\<lparr>buffer :=
        fst (drift_add (adjustment_bound cfg) (duplicate_count cfg) (buffer s) (DRIFT s)),
        DRIFT :=
        snd (drift_add (adjustment_bound cfg) (duplicate_count cfg) (buffer s) (DRIFT s))\<rparr>)"
      by (simp only: correcting_def if_False Let_def split_beta)
    with assms have "buffer s'
        = fst (drift_add (adjustment_bound cfg) (duplicate_count cfg) (buffer s) (DRIFT s))"
      by auto
    then show ?thesis by (simp add: drift_add_length)
  qed
qed

text \<open>The buffer of a run is never empty, whatever the options.\<close>

lemma reachable_nonempty: "reachable cv cfg s \<Longrightarrow> buffer s \<noteq> []"
proof (induction rule: reachable.induct)
  case (first_record th src s)
  then show ?case
    by (auto simp: start_def readFrame_def initial_def Let_def split: list.splits)
next
  case (admission s)
  with fill_body_buffer [of cv cfg s] show ?case by (auto simp: inc_back_def)
next
  case (drift_measured s)
  then show ?case by (simp add: update_drift_def Let_def)
next
  case (transferred s buf')
  from realloc_pass_donor [OF transferred.hyps(7,6)] obtain j where
    "buf' = transfer j (nat (buffer_size cfg sdiv 2)) (buffer s)" by blast
  then have "length buf' = length (buffer s)" by (simp add: length_transfer)
  with transferred.IH show ?case by auto
next
  case (corrected s s')
  from correcting_length [OF corrected.hyps(3)] corrected.IH show ?case
    by auto
next
  case (evicted s)
  show ?case by (simp add: evict_admit_def Let_def writeFrames_eq)
qed

text \<open>
  The correction completes on a window that holds at least \<open>buffer_size\<close> records: the
  target of the reallocation, at \<open>buffer_size/2\<close>, is then inside the window.
\<close>

lemma correcting_returns:
  assumes "0 \<le> buffer_size cfg" "buffer s \<noteq> []" "buffer_size cfg \<le> int (length (buffer s))"
  shows "\<exists>s'. correcting cfg s = Inr s'"
proof (cases "abs (DRIFT s) < adjustment_bound cfg")
  case True
  from assms(1) have n: "0 \<le> buffer_size cfg sdiv 2"
    by (simp add: signed_divide_int_def sgn_if)
  from assms have "buffer_size cfg sdiv 2 < int (length (buffer s))"
    by (cases "buffer_size cfg = 0") (auto simp: signed_divide_int_def sgn_if)
  from reallocate_result [OF n this, of "duplicate_count cfg"] obtain b where
    "reallocate (duplicate_count cfg) (buffer_size cfg sdiv 2) (buffer s) = Inr b" by blast
  with True show ?thesis by (simp add: correcting_def)
next
  case out: False
  show ?thesis
  proof (cases "adjustment_bound cfg \<le> DRIFT s")
    case True
    with out have "correcting cfg s = Inr (s\<lparr>buffer :=
        fst (drift_cut (adjustment_bound cfg) (duplicate_count cfg) (buffer s) (DRIFT s)),
        DRIFT :=
        snd (drift_cut (adjustment_bound cfg) (duplicate_count cfg) (buffer s) (DRIFT s))\<rparr>)"
      by (simp only: correcting_def if_False if_True Let_def split_beta)
    then show ?thesis by blast
  next
    case False
    with out have "correcting cfg s = Inr (s\<lparr>buffer :=
        fst (drift_add (adjustment_bound cfg) (duplicate_count cfg) (buffer s) (DRIFT s)),
        DRIFT :=
        snd (drift_add (adjustment_bound cfg) (duplicate_count cfg) (buffer s) (DRIFT s))\<rparr>)"
      by (simp only: correcting_def if_False Let_def split_beta)
    then show ?thesis by blast
  qed
qed

lemma full_window_correcting:
  assumes "reachable cv cfg s" "0 \<le> buffer_size cfg"
    "\<not> size_less (length (buffer s)) (buffer_size cfg)"
    "buffer (fill_body cv cfg s) = buffer s"
  shows "\<exists>s3. correcting cfg (update_drift cfg (fill_body cv cfg s)) = Inr s3"
proof (rule correcting_returns [OF assms(2)])
  from reachable_nonempty [OF assms(1)] assms(4)
  show "buffer (update_drift cfg (fill_body cv cfg s)) \<noteq> []"
    by (simp add: update_drift_def Let_def)
  from assms(2,3,4)
  show "buffer_size cfg \<le> int (length (buffer (update_drift cfg (fill_body cv cfg s))))"
    by (simp add: update_drift_def Let_def size_less_def)
qed

text \<open>
  C6 as stated fails for \<open>duplicate_count\<close> 1: the first record is stored with count 1,
  which is \<open>duplicate_count\<close>, while the active threshold is the strict one (0.5, the
  relaxed one being 0.25); a matching frame then raises the count to 2 and the threshold
  is still the strict one.
\<close>

theorem hysteresis_dup1_counterexample:
  "0 < duplicate_count dup1_config
   \<and> reachable example_cv dup1_config (first_state [1, 1])
   \<and> \<not> full (first_state [1, 1])
   \<and> count (last (buffer (first_state [1, 1]))) = duplicate_count dup1_config
   \<and> value' (THRESH (first_state [1, 1])) = 0.5
   \<and> relaxed (THRESH (first_state [1, 1])) = 0.25
   \<and> reachable example_cv dup1_config (fill_body example_cv dup1_config (first_state [1, 1]))
   \<and> count (last (buffer (fill_body example_cv dup1_config (first_state [1, 1])))) = 2
   \<and> value' (THRESH (fill_body example_cv dup1_config (first_state [1, 1]))) = 0.5"
proof -
  have r: "reachable example_cv dup1_config (first_state [1, 1])"
    by (rule first_state_reachable) simp
  have nf: "\<not> full (first_state [1, 1])" by (simp add: first_state_eq)
  from r nf have "reachable example_cv dup1_config
      (fill_body example_cv dup1_config (first_state [1, 1]))"
    by (rule admission)
  with r show ?thesis
    by (simp add: first_state_eq dup1_config_def fill_body_def readFrame_def matchFrames_def
        example_cv_def inc_back_def Let_def)
qed

text \<open>
  C6, amended. For every \<open>duplicate_count\<close> of at least 2 and every state of a run in
  which a record is open: if the open record's count has reached \<open>duplicate_count\<close>
  the active threshold is the relaxed one. A frame that matches under the active
  threshold is counted on the open record and the threshold is relaxed as soon as the
  count is \<open>duplicate_count\<close> or more. A frame that does not match sets the threshold
  back to strict, and a new record with count 1 is opened for it: at once when the
  window has room; otherwise the window is full, the correction that follows completes
  (the buffer size not being negative), and the admission that follows the eviction
  after it opens the record, with the threshold still strict.
\<close>

theorem hysteresis:
  assumes "2 \<le> duplicate_count cfg" and "reachable cv cfg s" and "\<not> full s"
  shows "(duplicate_count cfg \<le> count (last (buffer s))
            \<longrightarrow> value' (THRESH s) = relaxed (THRESH s))
   \<and> (\<forall>x xs. CAP s = x # xs \<longrightarrow>
        (absdiff_std cv (compF (last (buffer s))) (Img (gray_resize cv x)) < value' (THRESH s)
           \<longrightarrow> buffer (fill_body cv cfg s) = inc_back (buffer s)
             \<and> \<not> full (fill_body cv cfg s)
             \<and> (duplicate_count cfg \<le> count (last (buffer s)) + 1
                  \<longrightarrow> value' (THRESH (fill_body cv cfg s)) = relaxed (THRESH s)))
      \<and> (\<not> absdiff_std cv (compF (last (buffer s))) (Img (gray_resize cv x)) < value' (THRESH s)
           \<longrightarrow> value' (THRESH (fill_body cv cfg s)) = strict (THRESH s)
             \<and> tempframe (fill_body cv cfg s) = Img x
             \<and> (if size_less (length (buffer s)) (buffer_size cfg)
                then \<not> full (fill_body cv cfg s)
                   \<and> buffer (fill_body cv cfg s) = buffer s @
                        [\<lparr>data = Img x, compF = Img (gray_resize cv x), count = 1,
                          priority = absdiff_std cv (compF (last (buffer s)))
                                       (Img (gray_resize cv x)),
                          index = READ_INDEX s + 1\<rparr>]
                else full (fill_body cv cfg s) \<and> buffer (fill_body cv cfg s) = buffer s
                   \<and> (0 \<le> buffer_size cfg
                        \<longrightarrow> (\<exists>s3. correcting cfg (update_drift cfg (fill_body cv cfg s))
                                     = Inr s3))
                   \<and> (\<forall>s3. correcting cfg (update_drift cfg (fill_body cv cfg s)) = Inr s3
                         \<longrightarrow> value' (THRESH (evict_admit s3)) = strict (THRESH s)
                           \<and> \<not> full (evict_admit s3)
                           \<and> data (last (buffer (evict_admit s3))) = Img x
                           \<and> count (last (buffer (evict_admit s3))) = 1))))"
proof (intro conjI allI impI)
  from relaxed_reachable [OF assms(1,2)] assms(3)
  have inv: "duplicate_count cfg \<le> count (last (buffer s))
               \<longrightarrow> value' (THRESH s) = relaxed (THRESH s)"
    by (simp add: relaxed_when_reached_def)
  show "value' (THRESH s) = relaxed (THRESH s)"
    if "duplicate_count cfg \<le> count (last (buffer s))"
    using that inv by simp
  show "buffer (fill_body cv cfg s) = inc_back (buffer s)"
    if "CAP s = x # xs"
      and "absdiff_std cv (compF (last (buffer s))) (Img (gray_resize cv x)) < value' (THRESH s)"
    for x xs
    using fill_body_match(1) [OF that] .
  show "\<not> full (fill_body cv cfg s)"
    if "CAP s = x # xs"
      and "absdiff_std cv (compF (last (buffer s))) (Img (gray_resize cv x)) < value' (THRESH s)"
    for x xs
    using fill_body_match(2) [OF that, of cfg] assms(3) by simp
  show "value' (THRESH (fill_body cv cfg s)) = relaxed (THRESH s)"
    if "CAP s = x # xs"
      and "absdiff_std cv (compF (last (buffer s))) (Img (gray_resize cv x)) < value' (THRESH s)"
      and "duplicate_count cfg \<le> count (last (buffer s)) + 1"
    for x xs
    using fill_body_match(3) [OF that(1,2), of cfg] that(3) inv
    by (cases "count (last (buffer s)) + 1 = duplicate_count cfg")
       (simp_all add: makeRelaxed_def)
  show "value' (THRESH (fill_body cv cfg s)) = strict (THRESH s)"
    if "CAP s = x # xs"
      and "\<not> absdiff_std cv (compF (last (buffer s))) (Img (gray_resize cv x))
             < value' (THRESH s)"
    for x xs
    using fill_body_mismatch(1) [OF that, of cfg] by (simp add: makeStrict_def)
  show "tempframe (fill_body cv cfg s) = Img x"
    if "CAP s = x # xs"
      and "\<not> absdiff_std cv (compF (last (buffer s))) (Img (gray_resize cv x))
             < value' (THRESH s)"
    for x xs
    using fill_body_mismatch(2) [OF that] .
  show "if size_less (length (buffer s)) (buffer_size cfg)
        then \<not> full (fill_body cv cfg s)
           \<and> buffer (fill_body cv cfg s) = buffer s @
                [\<lparr>data = Img x, compF = Img (gray_resize cv x), count = 1,
                  priority = absdiff_std cv (compF (last (buffer s))) (Img (gray_resize cv x)),
                  index = READ_INDEX s + 1\<rparr>]
        else full (fill_body cv cfg s) \<and> buffer (fill_body cv cfg s) = buffer s
           \<and> (0 \<le> buffer_size cfg
                \<longrightarrow> (\<exists>s3. correcting cfg (update_drift cfg (fill_body cv cfg s)) = Inr s3))
           \<and> (\<forall>s3. correcting cfg (update_drift cfg (fill_body cv cfg s)) = Inr s3
                 \<longrightarrow> value' (THRESH (evict_admit s3)) = strict (THRESH s)
                   \<and> \<not> full (evict_admit s3)
                   \<and> data (last (buffer (evict_admit s3))) = Img x
                   \<and> count (last (buffer (evict_admit s3))) = 1)"
    if cap: "CAP s = x # xs"
      and m: "\<not> absdiff_std cv (compF (last (buffer s))) (Img (gray_resize cv x))
                < value' (THRESH s)"
    for x xs
  proof (cases "size_less (length (buffer s)) (buffer_size cfg)")
    case True
    with fill_body_mismatch(3) [OF cap m, of cfg] assms(3) show ?thesis by simp
  next
    case False
    note fb = fill_body_mismatch [OF cap m, of cfg]
    have "value' (THRESH (evict_admit s3)) = strict (THRESH s)
            \<and> \<not> full (evict_admit s3)
            \<and> data (last (buffer (evict_admit s3))) = Img x
            \<and> count (last (buffer (evict_admit s3))) = 1"
      if c: "correcting cfg (update_drift cfg (fill_body cv cfg s)) = Inr s3" for s3
    proof -
      from correcting_frame(2,3) [OF c] fb(1,2)
      have "THRESH s3 = makeStrict (THRESH s)" "tempframe s3 = Img x"
        by (simp_all add: update_drift_frame)
      then show ?thesis by (simp add: evict_admit_opens makeStrict_def)
    qed
    moreover have "\<exists>s3. correcting cfg (update_drift cfg (fill_body cv cfg s)) = Inr s3"
      if "0 \<le> buffer_size cfg"
      using full_window_correcting [OF assms(2) that False] fb(4) [OF False] by simp
    ultimately show ?thesis using False fb(4) by simp
  qed
qed

text \<open>
  On the frames 1, 1, 2 with \<open>duplicate_count\<close> 2: after the second frame the open
  record has count 2 and the threshold is 0.25; the third frame does not match, the
  threshold is 0.5 again and a second record is open.
\<close>

theorem hysteresis_witness:
  "2 \<le> duplicate_count (small_config 3)
   \<and> reachable example_cv (small_config 3)
        (fill_body example_cv (small_config 3) (first_state [1, 1, 2]))
   \<and> \<not> full (fill_body example_cv (small_config 3) (first_state [1, 1, 2]))
   \<and> count (last (buffer (fill_body example_cv (small_config 3) (first_state [1, 1, 2])))) = 2
   \<and> value' (THRESH (fill_body example_cv (small_config 3) (first_state [1, 1, 2]))) = 0.25
   \<and> relaxed (THRESH (fill_body example_cv (small_config 3) (first_state [1, 1, 2]))) = 0.25
   \<and> CAP (fill_body example_cv (small_config 3) (first_state [1, 1, 2])) = [2]
   \<and> value' (THRESH (fill_body example_cv (small_config 3)
        (fill_body example_cv (small_config 3) (first_state [1, 1, 2])))) = 0.5
   \<and> map count (buffer (fill_body example_cv (small_config 3)
        (fill_body example_cv (small_config 3) (first_state [1, 1, 2])))) = [2, 1]"
proof -
  let ?s = "fill_body example_cv (small_config 3) (first_state [1, 1, 2])"
  have d: "2 \<le> duplicate_count (small_config 3)" by (simp add: small_config_def)
  have r0: "reachable example_cv (small_config 3) (first_state [1, 1, 2])"
    by (rule first_state_reachable) simp
  have "\<not> full (first_state [1, 1, 2])" by (simp add: first_state_eq)
  with r0 have r: "reachable example_cv (small_config 3) ?s" by (rule admission)
  have s: "?s = \<lparr>CAP = [2], VIDEO = [], THRESH = \<lparr>value' = 0.25, strict = 0.5, relaxed = 0.25\<rparr>,
      WRITE_INDEX = 0, READ_INDEX = 1, FINISHED = False, DRIFT = 0,
      buffer = [\<lparr>data = Img 1, compF = Img 1, count = 2, priority = 0, index = 0\<rparr>],
      tempframe = Img 1, compframe = Img 1, stdev = 0, full = False, drift_update = 0\<rparr>"
    by (simp add: first_state_eq small_config_def fill_body_def readFrame_def matchFrames_def
        example_cv_def inc_back_def makeRelaxed_def Let_def)
  then have nf: "\<not> full ?s" by simp
  from hysteresis [OF d r nf] have
    "duplicate_count (small_config 3) \<le> count (last (buffer ?s))
       \<longrightarrow> value' (THRESH ?s) = relaxed (THRESH ?s)"
    by blast
  with r d show ?thesis
    unfolding s
    by (simp add: small_config_def fill_body_def readFrame_def matchFrames_def
        example_cv_def makeStrict_def newFrame_def size_less_def Let_def)
qed

section \<open>C10: the end of the stream\<close>

lemma fill_body_eof:
  assumes "\<not> FINISHED s" "FINISHED (fill_body cv cfg s)"
  shows "fill_body cv cfg s
           = s\<lparr>tempframe := Empty, READ_INDEX := READ_INDEX s + 1, full := True,
               FINISHED := True\<rparr>"
  using assms
  by (auto simp: fill_body_def readFrame_def matchFrames_def Let_def
      split: list.splits if_splits)

lemma fill_eof:
  "\<not> FINISHED s \<Longrightarrow> FINISHED (fill cv cfg s) \<Longrightarrow>
     tempframe (fill cv cfg s) = Empty \<and> full (fill cv cfg s)"
proof (induction cv cfg s rule: fill.induct)
  case (1 cv cfg s)
  show ?case
  proof (cases "full s")
    case True
    then have "fill cv cfg s = s" by (subst fill.simps) simp
    with "1.prems" show ?thesis by simp
  next
    case False
    then have f: "fill cv cfg s = fill cv cfg (fill_body cv cfg s)"
      by (subst fill.simps) simp
    show ?thesis
    proof (cases "FINISHED (fill_body cv cfg s)")
      case True
      note e = fill_body_eof [OF "1.prems"(1) True]
      then have "full (fill_body cv cfg s)" by simp
      then have "fill cv cfg (fill_body cv cfg s) = fill_body cv cfg s"
        by (subst fill.simps) simp
      with f e show ?thesis by simp
    next
      case nf: False
      from "1.IH" [OF False nf] "1.prems"(2) f show ?thesis by simp
    qed
  qed
qed

lemma VIDEO_fill_body: "VIDEO (fill_body cv cfg s) = VIDEO s"
  by (auto simp: fill_body_def readFrame_def matchFrames_def Let_def split: list.splits)

lemma VIDEO_fill: "VIDEO (fill cv cfg s) = VIDEO s"
proof (induction cv cfg s rule: fill.induct)
  case (1 cv cfg s)
  show ?case
  proof (cases "full s")
    case True
    then show ?thesis by (subst fill.simps) simp
  next
    case False
    from "1.IH" [OF False] False show ?thesis
      by (subst fill.simps) (simp add: VIDEO_fill_body)
  qed
qed

lemma FINISHED_fill_body: "FINISHED s \<Longrightarrow> FINISHED (fill_body cv cfg s)"
  by (auto simp: fill_body_def readFrame_def matchFrames_def Let_def split: list.splits)

lemma correcting_keeps:
  assumes "correcting cfg s = Inr s'"
  shows "VIDEO s' = VIDEO s" "FINISHED s' = FINISHED s"
  using assms by (auto simp: correcting_def split_beta split: if_splits sum.splits)

lemma update_drift_keeps:
  "VIDEO (update_drift cfg s) = VIDEO s" "FINISHED (update_drift cfg s) = FINISHED s"
  "compframe (update_drift cfg s) = compframe s" "stdev (update_drift cfg s) = stdev s"
  "READ_INDEX (update_drift cfg s) = READ_INDEX s"
  by (simp_all add: update_drift_def Let_def)

lemma eof_cycle:
  assumes "\<not> FINISHED s" and "FINISHED (fill cv cfg s)"
    and c: "correcting cfg (update_drift cfg (fill cv cfg s)) = Inr s3"
  shows "cycle cv cfg s = Inr (evict_admit s3)"
    and "main_loop cv cfg s = Inr (evict_admit s3)"
    and "VIDEO (evict_admit s3)
       = VIDEO s @ replicate (nat (count (hd (buffer s3)))) (data (hd (buffer s3)))"
    and "buffer (evict_admit s3)
       = tl (buffer s3) @
         [\<lparr>data = Empty, compF = compframe (fill cv cfg s), count = 1,
           priority = stdev (fill cv cfg s), index = READ_INDEX (fill cv cfg s)\<rparr>]"
proof -
  from fill_eof [OF assms(1,2)] have te: "tempframe (fill cv cfg s) = Empty" by simp
  show cyc: "cycle cv cfg s = Inr (evict_admit s3)"
    using c by (simp add: cycle_def Let_def)
  from correcting_keeps(2) [OF c] assms(2) have "FINISHED (evict_admit s3)"
    by (simp add: evict_admit_def Let_def writeFrames_eq update_drift_keeps)
  then have "main_loop cv cfg (evict_admit s3) = Inr (evict_admit s3)"
    by (subst main_loop.simps) simp
  with assms(1) cyc show "main_loop cv cfg s = Inr (evict_admit s3)"
    by (subst main_loop.simps) simp
  from correcting_keeps(1) [OF c] have "VIDEO s3 = VIDEO s"
    by (simp add: update_drift_keeps VIDEO_fill)
  then show "VIDEO (evict_admit s3)
      = VIDEO s @ replicate (nat (count (hd (buffer s3)))) (data (hd (buffer s3)))"
    by (simp add: evict_admit_def Let_def writeFrames_eq)
  from correcting_frame(3-6) [OF c] te show "buffer (evict_admit s3)
      = tl (buffer s3) @
         [\<lparr>data = Empty, compF = compframe (fill cv cfg s), count = 1,
           priority = stdev (fill cv cfg s), index = READ_INDEX (fill cv cfg s)\<rparr>]"
    by (simp add: evict_admit_def Let_def writeFrames_eq newFrame_def update_drift_keeps
        update_drift_frame)
qed

lemma eof_output:
  assumes "\<not> FINISHED s" and "FINISHED (fill cv cfg s)"
    and "correcting cfg (update_drift cfg (fill cv cfg s)) = Inr s3"
    and "start cv th src = (True, s)"
  shows "run_output cv cfg th src
          = Inr (0, VIDEO s @ replicate (nat (count (hd (buffer s3)))) (data (hd (buffer s3)))
                 @ concat (map (\<lambda>f. replicate (nat (count f)) (data f)) (tl (buffer s3)))
                 @ [Empty])"
  using eof_cycle(2-4) [OF assms(1-3)] assms(4)
  by (simp add: run_output_def main_def Let_def VIDEO_cleanup)

text \<open>
  Confirmed (C10). When the filling phase of an iteration meets the end of the stream, the
  last read leaves an empty image in \<open>tempframe\<close>; if the correction completes, the
  iteration still writes and evicts the head, and then admits one more record made from
  that empty image, with count 1; the main loop ends there, and the flush writes the
  records left of the window followed by that record once. From the first iteration on,
  the whole output is the head, the rest of the window and one empty image.
\<close>

theorem end_of_stream_admits_empty_record:
  assumes "\<not> FINISHED s" and "FINISHED (fill cv cfg s)"
    and "correcting cfg (update_drift cfg (fill cv cfg s)) = Inr s3"
  shows "tempframe (fill cv cfg s) = Empty
   \<and> cycle cv cfg s = Inr (evict_admit s3)
   \<and> main_loop cv cfg s = Inr (evict_admit s3)
   \<and> VIDEO (evict_admit s3)
       = VIDEO s @ replicate (nat (count (hd (buffer s3)))) (data (hd (buffer s3)))
   \<and> buffer (evict_admit s3)
       = tl (buffer s3) @
         [\<lparr>data = Empty, compF = compframe (fill cv cfg s), count = 1,
           priority = stdev (fill cv cfg s), index = READ_INDEX (fill cv cfg s)\<rparr>]
   \<and> VIDEO (cleanup (buffer (evict_admit s3)) (evict_admit s3))
       = VIDEO (evict_admit s3)
         @ concat (map (\<lambda>f. replicate (nat (count f)) (data f)) (tl (buffer s3))) @ [Empty]
   \<and> (start cv th src = (True, s) \<longrightarrow>
        run_output cv cfg th src
          = Inr (0, VIDEO s @ replicate (nat (count (hd (buffer s3)))) (data (hd (buffer s3)))
                 @ concat (map (\<lambda>f. replicate (nat (count f)) (data f)) (tl (buffer s3)))
                 @ [Empty]))"
proof -
  note e = eof_cycle [OF assms]
  from fill_eof [OF assms(1,2)] have "tempframe (fill cv cfg s) = Empty" by simp
  moreover have "VIDEO (cleanup (buffer (evict_admit s3)) (evict_admit s3))
       = VIDEO (evict_admit s3)
         @ concat (map (\<lambda>f. replicate (nat (count f)) (data f)) (tl (buffer s3))) @ [Empty]"
    by (simp add: VIDEO_cleanup e(4))
  moreover note e eof_output [OF assms]
  ultimately show ?thesis by blast
qed

text \<open>
  A source of one frame with a buffer of 1: two images are written, the frame and the
  empty image, for one distinct frame.
\<close>

theorem end_of_stream_admits_empty_record_witness:
  "\<not> FINISHED (first_state [7])
   \<and> FINISHED (fill example_cv (small_config 1) (first_state [7]))
   \<and> start example_cv default_THRESH [7] = (True, first_state [7])
   \<and> run_output example_cv (small_config 1) default_THRESH [7] = Inr (0, [Img 7, Empty])
   \<and> length [7 :: nat] < length [Img 7, Empty :: nat Mat]"
proof -
  let ?cfg = "small_config 1"
  have nf: "\<not> FINISHED (first_state [7])" by (simp add: first_state_eq)
  have f: "fill example_cv ?cfg (first_state [7])
      = (first_state [7])\<lparr>tempframe := Empty, READ_INDEX := 1, full := True, FINISHED := True\<rparr>"
    by (simp add: first_state_eq fill.simps fill_body_def readFrame_def Let_def)
  then have fin: "FINISHED (fill example_cv ?cfg (first_state [7]))" by simp
  have c: "correcting ?cfg (update_drift ?cfg (fill example_cv ?cfg (first_state [7])))
      = Inr ((first_state [7])\<lparr>tempframe := Empty, READ_INDEX := 1, full := True,
               FINISHED := True, drift_update := 1\<rparr>)"
    unfolding f
    by (simp add: first_state_eq small_config_def update_drift_def correcting_def
        reallocate.simps realloc_pass_def signed_divide_int_def Let_def)
  have st: "start example_cv default_THRESH [7] = (True, first_state [7])"
    by (simp add: first_state_def start_def readFrame_def initial_def Let_def)
  from end_of_stream_admits_empty_record [OF nf fin c, of default_THRESH "[7]"] st nf fin
  show ?thesis by (simp add: first_state_eq)
qed

section \<open>C7: scenario A\<close>

lemma scenario_A_started:
  "start cv th [a, a, b, c, c] = (True, scenario_A_start cv th a b c)"
  "\<not> FINISHED (scenario_A_start cv th a b c)"
  "VIDEO (scenario_A_start cv th a b c) = []"
  by (simp_all add: scenario_A_start_def start_def readFrame_def initial_def Let_def)

lemma scenario_A_filled:
  assumes "3 \<le> buffer_size cfg" and "duplicate_count cfg = 2" and "value' th = strict th"
    and "absdiff_std cv (Img (gray_resize cv a)) (Img (gray_resize cv a)) < strict th"
    and "\<not> absdiff_std cv (Img (gray_resize cv a)) (Img (gray_resize cv b)) < relaxed th"
    and "\<not> absdiff_std cv (Img (gray_resize cv b)) (Img (gray_resize cv c)) < strict th"
    and "absdiff_std cv (Img (gray_resize cv c)) (Img (gray_resize cv c)) < strict th"
  shows "fill cv cfg (scenario_A_start cv th a b c) =
     \<lparr>CAP = [], VIDEO = [], THRESH = th\<lparr>value' := relaxed th\<rparr>, WRITE_INDEX = 0,
      READ_INDEX = 5, FINISHED = True, DRIFT = 0, buffer = scenario_A_window cv a b c,
      tempframe = Empty, compframe = Img (gray_resize cv c),
      stdev = absdiff_std cv (Img (gray_resize cv c)) (Img (gray_resize cv c)),
      full = True, drift_update = 0\<rparr>"
  using assms
  by (simp add: scenario_A_start_def scenario_A_window_def start_def initial_def readFrame_def
      newFrame_def fill.simps fill_body_def matchFrames_def inc_back_def makeRelaxed_def
      makeStrict_def size_less_def Let_def)

lemma scenario_A_reallocated:
  assumes "n = 1 \<or> n = 2"
  shows "\<exists>buf' ka kb kc.
      reallocate 2 n (scenario_A_window cv a b c) = Inr buf'
    \<and> replicate (nat (count (hd buf'))) (data (hd buf'))
        @ concat (map (\<lambda>f. replicate (nat (count f)) (data f)) (tl buf'))
        = replicate ka (Img a) @ replicate kb (Img b) @ replicate kc (Img c)
    \<and> ka + kb + kc = (5::nat) \<and> 1 \<le> ka \<and> 1 \<le> kb \<and> 1 \<le> kc"
proof -
  let ?W = "scenario_A_window cv a b c"
  let ?pb = "absdiff_std cv (Img (gray_resize cv a)) (Img (gray_resize cv b))"
  let ?pc = "absdiff_std cv (Img (gray_resize cv b)) (Img (gray_resize cv c))"
  let ?out = "\<lambda>buf'. replicate (nat (count (hd buf'))) (data (hd buf'))
        @ concat (map (\<lambda>f. replicate (nat (count f)) (data f)) (tl buf'))"
  have shape: "\<And>buf' ka kb kc. reallocate 2 n ?W = Inr buf' \<Longrightarrow>
      ?out buf' = replicate ka (Img a) @ replicate kb (Img b) @ replicate kc (Img c) \<Longrightarrow>
      ka + kb + kc = 5 \<Longrightarrow> 1 \<le> ka \<Longrightarrow> 1 \<le> kb \<Longrightarrow> 1 \<le> kc \<Longrightarrow> ?thesis"
    by blast
  from assms show ?thesis
  proof
    assume n: "n = 2"
    have "reallocate 2 n ?W = Inr ?W"
      by (simp add: n scenario_A_window_def reallocate.simps)
    moreover have "?out ?W = replicate 2 (Img a) @ replicate 1 (Img b) @ replicate 2 (Img c)"
      by (simp add: scenario_A_window_def eval_nat_numeral)
    ultimately show ?thesis by (rule shape) simp_all
  next
    assume n: "n = 1"
    show ?thesis
    proof (cases "?pc < ?pb")
      case True
      let ?B = "[?W ! 0, (?W ! 1)\<lparr>count := 2\<rparr>, (?W ! 2)\<lparr>count := 1\<rparr>]"
      from True have "reallocate 2 n ?W = Inr ?B"
        by (simp add: n scenario_A_window_def reallocate.simps realloc_pass_def transfer_def
            eval_nat_numeral)
      moreover have "?out ?B = replicate 2 (Img a) @ replicate 2 (Img b) @ replicate 1 (Img c)"
        by (simp add: scenario_A_window_def eval_nat_numeral)
      ultimately show ?thesis by (rule shape) simp_all
    next
      case False
      show ?thesis
      proof (cases "0 < ?pb")
        case True
        let ?B = "[(?W ! 0)\<lparr>count := 1\<rparr>, (?W ! 1)\<lparr>count := 2\<rparr>, ?W ! 2]"
        from True False have "reallocate 2 n ?W = Inr ?B"
          by (simp add: n scenario_A_window_def reallocate.simps realloc_pass_def transfer_def
              eval_nat_numeral)
        moreover have "?out ?B = replicate 1 (Img a) @ replicate 2 (Img b) @ replicate 2 (Img c)"
          by (simp add: scenario_A_window_def eval_nat_numeral)
        ultimately show ?thesis by (rule shape) simp_all
      next
        case nodonor: False
        from nodonor False have "reallocate 2 n ?W = Inr ?W"
          by (simp add: n scenario_A_window_def reallocate.simps realloc_pass_def transfer_def
              eval_nat_numeral)
        moreover have "?out ?W = replicate 2 (Img a) @ replicate 1 (Img b) @ replicate 2 (Img c)"
          by (simp add: scenario_A_window_def eval_nat_numeral)
        ultimately show ?thesis by (rule shape) simp_all
      qed
    qed
  qed
qed

lemma scenario_A_run:
  "run_output example_cv (small_config 3) default_THRESH [1, 1, 2, 3, 3]
     = Inr (0, [Img 1, Img 2, Img 2, Img 3, Img 3, Empty])"
  by (simp add: run_output_def main_def start_def initial_def main_loop.simps
      small_config_def default_THRESH_def setup_THRESH_def cycle_def fill.simps fill_body_def
      readFrame_def matchFrames_def example_cv_def inc_back_def makeRelaxed_def makeStrict_def
      newFrame_def size_less_def update_drift_def correcting_def reallocate.simps
      realloc_pass_def transfer_def signed_divide_int_def evict_admit_def writeFrames_eq
      Let_def eval_nat_numeral)

text \<open>
  C7 as stated fails: on the frames 1, 1, 2, 3, 3 with \<open>duplicate_count\<close> 2 and a buffer
  of 3 the run writes six images, not five: five copies of source frames and the empty
  image of the failed last read.
\<close>

theorem scenario_A_six_writes_counterexample:
  "run_output example_cv (small_config 3) default_THRESH [1, 1, 2, 3, 3]
     = Inr (0, [Img 1, Img 2, Img 2, Img 3, Img 3, Empty])
   \<and> length (snd (projr (run_output example_cv (small_config 3) default_THRESH
         [1, 1, 2, 3, 3]))) \<noteq> 5"
  unfolding scenario_A_run by simp

text \<open>
  C7, amended. For a source \<open>a, a, b, c, c\<close> with match groups of sizes 2, 1, 2,
  \<open>duplicate_count\<close> 2, a positive adjustment bound and a buffer size of 3, 4 or 5, the
  run ends with status 0 and writes copies of \<open>a\<close>, then of \<open>b\<close>, then of \<open>c\<close>, at
  least one of each and five in all, followed by one write of the empty image: six
  writes.
\<close>

theorem scenario_A_output:
  assumes size: "buffer_size cfg = 3 \<or> buffer_size cfg = 4 \<or> buffer_size cfg = 5"
    and dup: "duplicate_count cfg = 2" and bound: "0 < adjustment_bound cfg"
    and th: "value' th = strict th"
    and m1: "absdiff_std cv (Img (gray_resize cv a)) (Img (gray_resize cv a)) < strict th"
    and m2: "\<not> absdiff_std cv (Img (gray_resize cv a)) (Img (gray_resize cv b)) < relaxed th"
    and m3: "\<not> absdiff_std cv (Img (gray_resize cv b)) (Img (gray_resize cv c)) < strict th"
    and m4: "absdiff_std cv (Img (gray_resize cv c)) (Img (gray_resize cv c)) < strict th"
  shows "\<exists>ka kb kc.
      run_output cv cfg th [a, a, b, c, c]
        = Inr (0, replicate ka (Img a) @ replicate kb (Img b) @ replicate kc (Img c) @ [Empty])
    \<and> ka + kb + kc = (5::nat) \<and> 1 \<le> ka \<and> 1 \<le> kb \<and> 1 \<le> kc"
proof -
  let ?s = "scenario_A_start cv th a b c"
  from size have big: "3 \<le> buffer_size cfg" by auto
  note f = scenario_A_filled [OF big dup th m1 m2 m3 m4]
  from size have "buffer_size cfg sdiv 2 = 1 \<or> buffer_size cfg sdiv 2 = 2"
    by (auto simp: signed_divide_int_def)
  from scenario_A_reallocated [OF this, of cv a b c] obtain buf' ka kb kc where
    r: "reallocate 2 (buffer_size cfg sdiv 2) (scenario_A_window cv a b c) = Inr buf'"
    and out: "replicate (nat (count (hd buf'))) (data (hd buf'))
        @ concat (map (\<lambda>f. replicate (nat (count f)) (data f)) (tl buf'))
        = replicate ka (Img a) @ replicate kb (Img b) @ replicate kc (Img c)"
    and k: "ka + kb + kc = 5" "1 \<le> ka" "1 \<le> kb" "1 \<le> kc"
    by blast
  have fin: "FINISHED (fill cv cfg ?s)" by (simp add: f)
  have c: "correcting cfg (update_drift cfg (fill cv cfg ?s))
      = Inr ((update_drift cfg (fill cv cfg ?s))\<lparr>buffer := buf'\<rparr>)"
    using bound r by (simp add: f dup update_drift_def correcting_def scenario_A_window_def Let_def)
  from eof_output [OF scenario_A_started(2) fin c scenario_A_started(1)] out
  have "run_output cv cfg th [a, a, b, c, c]
        = Inr (0, replicate ka (Img a) @ replicate kb (Img b) @ replicate kc (Img c) @ [Empty])"
    by (simp add: scenario_A_started(3))
  with k show ?thesis by blast
qed

text \<open>
  The run on the frames 1, 1, 2, 3, 3 with a buffer of 3: one copy of 1, two of 2, two of
  3, and the empty image.
\<close>

theorem scenario_A_output_witness:
  "(buffer_size (small_config 3) = 3 \<or> buffer_size (small_config 3) = 4
      \<or> buffer_size (small_config 3) = 5)
   \<and> duplicate_count (small_config 3) = 2
   \<and> 0 < adjustment_bound (small_config 3)
   \<and> value' default_THRESH = strict default_THRESH
   \<and> absdiff_std example_cv (Img (gray_resize example_cv 1)) (Img (gray_resize example_cv 1))
        < strict default_THRESH
   \<and> absdiff_std example_cv (Img (gray_resize example_cv 1)) (Img (gray_resize example_cv 2))
        \<ge> relaxed default_THRESH
   \<and> absdiff_std example_cv (Img (gray_resize example_cv 2)) (Img (gray_resize example_cv 3))
        \<ge> strict default_THRESH
   \<and> absdiff_std example_cv (Img (gray_resize example_cv 3)) (Img (gray_resize example_cv 3))
        < strict default_THRESH
   \<and> run_output example_cv (small_config 3) default_THRESH [1, 1, 2, 3, 3]
       = Inr (0, replicate 1 (Img 1) @ replicate 2 (Img 2) @ replicate 2 (Img 3) @ [Empty])"
proof -
  have size: "buffer_size (small_config 3) = 3 \<or> buffer_size (small_config 3) = 4
      \<or> buffer_size (small_config 3) = 5"
    and dup: "duplicate_count (small_config 3) = 2"
    and bound: "0 < adjustment_bound (small_config 3)"
    by (simp_all add: small_config_def)
  have th: "value' default_THRESH = strict default_THRESH"
    by (simp add: default_THRESH_def setup_THRESH_def)
  have m1: "absdiff_std example_cv (Img (gray_resize example_cv 1)) (Img (gray_resize example_cv 1))
              < strict default_THRESH"
    and m2: "\<not> absdiff_std example_cv (Img (gray_resize example_cv 1))
                (Img (gray_resize example_cv 2)) < relaxed default_THRESH"
    and m3: "\<not> absdiff_std example_cv (Img (gray_resize example_cv 2))
                (Img (gray_resize example_cv 3)) < strict default_THRESH"
    and m4: "absdiff_std example_cv (Img (gray_resize example_cv 3)) (Img (gray_resize example_cv 3))
              < strict default_THRESH"
    by (simp_all add: example_cv_def default_THRESH_def setup_THRESH_def)
  have out: "run_output example_cv (small_config 3) default_THRESH [1, 1, 2, 3, 3]
       = Inr (0, replicate 1 (Img 1) @ replicate 2 (Img 2) @ replicate 2 (Img 3) @ [Empty])"
    unfolding scenario_A_run by (simp add: eval_nat_numeral)
  from scenario_A_output [OF size dup bound th m1 m2 m3 m4] size dup bound th m1 m2 m3 m4 out
  show ?thesis by (simp only: not_less simp_thms)
qed

end
